theory Spec2Isabelle
  imports Main "HOL-Library.While_Combinator" "HOL-Library.AList"
begin

section \<open>IR types and the type-compatibility rule (CallGraph.cc)\<close>

text \<open>
  The analyzer works on LLVM IR with typed pointers. Only what
  \<open>CallGraphPass::isCompatibleType\<close> inspects of a type is kept: the pointee and
  address space of a pointer, the element type of an array, the bit width of an
  integer, whether a struct is literal (then its element types) or identified (then
  its name), the return type, parameter types and variadic flag of a function type,
  and the type id of every other type. An identified struct is compared by name
  only, so its body (which may refer to itself through a pointer) is not part of the
  model.
\<close>

datatype miscTypeID =
    HalfTyID | BFloatTyID | FloatTyID | DoubleTyID | X86_FP80TyID | FP128TyID
  | PPC_FP128TyID | VoidTyID | LabelTyID | MetadataTyID | X86_MMXTyID | TokenTyID
  | FixedVectorTyID | ScalableVectorTyID

datatype typeID =
    IntegerTyID | FunctionTyID | PointerTyID | StructTyID | ArrayTyID
  | MiscTyID miscTypeID

datatype llvmType =
    PointerTy llvmType nat
  | ArrayTy llvmType nat
  | IntegerTy nat
  | LiteralStructTy "llvmType list"
  | NamedStructTy string
  | FunctionTy llvmType "llvmType list" bool
  | MiscTy miscTypeID

fun getTypeID :: "llvmType \<Rightarrow> typeID" where
  "getTypeID (PointerTy _ _) = PointerTyID"
| "getTypeID (ArrayTy _ _) = ArrayTyID"
| "getTypeID (IntegerTy _) = IntegerTyID"
| "getTypeID (LiteralStructTy _) = StructTyID"
| "getTypeID (NamedStructTy _) = StructTyID"
| "getTypeID (FunctionTy _ _ _) = FunctionTyID"
| "getTypeID (MiscTy i) = MiscTyID i"

text \<open>
  \<open>isCompatibleType T1 T2\<close>, branch by branch as in the source. The two loops over
  struct elements and over parameters are \<open>allCompatible\<close>; both run only after the
  two counts were found equal, so its last equation is never reached. The array
  branch passes \<open>ElT1\<close> twice, as the source does.
\<close>

fun isCompatibleType :: "llvmType \<Rightarrow> llvmType \<Rightarrow> bool"
  and allCompatible :: "llvmType list \<Rightarrow> llvmType list \<Rightarrow> bool" where
  "isCompatibleType (PointerTy ElT1 as1) T2 =
     (case T2 of
        PointerTy ElT2 as2 \<Rightarrow>
          if ElT1 = IntegerTy 8 then True else isCompatibleType ElT1 ElT2
      | _ \<Rightarrow> False)"
| "isCompatibleType (ArrayTy ElT1 n1) T2 =
     (case T2 of
        ArrayTy ElT2 n2 \<Rightarrow> isCompatibleType ElT1 ElT1
      | _ \<Rightarrow> False)"
| "isCompatibleType (IntegerTy w) T2 =
     (case T2 of
        PointerTy ElT2 as2 \<Rightarrow> w = as2
      | IntegerTy w2 \<Rightarrow> True
      | _ \<Rightarrow> False)"
| "isCompatibleType (LiteralStructTy es1) T2 =
     (case T2 of
        LiteralStructTy es2 \<Rightarrow>
          if length es1 \<noteq> length es2 then False else allCompatible es1 es2
      | _ \<Rightarrow> False)"
| "isCompatibleType (NamedStructTy name1) T2 =
     (case T2 of
        NamedStructTy name2 \<Rightarrow> name1 = name2
      | _ \<Rightarrow> False)"
| "isCompatibleType (FunctionTy ret1 params1 varArg1) T2 =
     (case T2 of
        FunctionTy ret2 params2 varArg2 \<Rightarrow>
          if \<not> isCompatibleType ret1 ret2 then False
          else if varArg1 then varArg2
          else if length params1 \<noteq> length params2 then False
          else allCompatible params1 params2
      | _ \<Rightarrow> False)"
| "isCompatibleType (MiscTy i) T2 = (getTypeID (MiscTy i) = getTypeID T2)"
| "allCompatible [] ys = True"
| "allCompatible (x # xs) (y # ys) =
     (if \<not> isCompatibleType x y then False else allCompatible xs ys)"
| "allCompatible (x # xs) [] = False"

section \<open>Path normalizer (Slicing.cc and CallGraph.cc, same body)\<close>

text \<open>
  \<open>std::getline(ss, component, '/')\<close> in a loop: every \<open>/\<close> ends a component
  (possibly empty); the characters after the last \<open>/\<close> are a component only when
  there is at least one, since a read that extracts nothing at the end of the stream
  fails and ends the loop. \<open>getlineAll cur s\<close> carries the component read so far.
\<close>

fun getlineAll :: "string \<Rightarrow> string \<Rightarrow> string list" where
  "getlineAll cur [] = (if cur = [] then [] else [cur])"
| "getlineAll cur (c # cs) =
     (if c = CHR ''/'' then cur # getlineAll [] cs else getlineAll (cur @ [c]) cs)"

definition pushComponent :: "string list \<Rightarrow> string \<Rightarrow> string list" where
  "pushComponent components component =
     (if component = ''..'' then
        (if components \<noteq> [] then butlast components else components)
      else if component \<noteq> ''.'' \<and> component \<noteq> [] then components @ [component]
      else components)"

definition joinComponents :: "string list \<Rightarrow> string" where
  "joinComponents components = concat (map (\<lambda>comp. comp @ ''/'') components)"

text \<open>
  \<open>normalizedPath.substr(0, normalizedPath.size() - 1)\<close>: \<open>size()\<close> is an unsigned
  64-bit \<open>size_t\<close>, so for the empty string the count wraps to \<open>2^64 - 1\<close> and
  \<open>substr\<close> returns the (empty) string.
\<close>

definition dropTrailing :: "string \<Rightarrow> string" where
  "dropTrailing s = take (if length s = 0 then 2 ^ 64 - 1 else length s - 1) s"

definition normalizePath :: "string \<Rightarrow> string" where
  "normalizePath pathStr =
     (let components = foldl pushComponent [] (getlineAll [] pathStr);
          normalizedPath = joinComponents components;
          normalizedPath' =
            (if pathStr \<noteq> [] \<and> hd pathStr = CHR ''/'' then ''/'' @ normalizedPath
             else normalizedPath)
      in dropTrailing normalizedPath')"

section \<open>Argument validation of the orchestrator (KAMain.cc, main)\<close>

record options =
  TargetName :: string
  SrcRoot :: string
  CallGraph :: bool
  ProgramSlicing :: bool
  TargetLine :: int
  TargetFunc :: string
  MultiTargetPairsConfig :: string
  OutputPath :: string

text \<open>
  The three checks at the top of \<open>main\<close>: \<open>Some rc\<close> is \<open>return rc\<close>, \<open>None\<close> is
  falling through to the loader.
\<close>

definition validateArguments :: "options \<Rightarrow> int option" where
  "validateArguments opts =
     (if TargetName opts = [] \<and> MultiTargetPairsConfig opts = [] then Some (- 1)
      else if TargetLine opts = 0 \<and> TargetFunc opts = [] \<and> MultiTargetPairsConfig opts = []
        then Some (- 1)
      else if SrcRoot opts = [] then Some (- 1)
      else None)"

section \<open>The IR as the analyzer sees it\<close>

text \<open>
  The analyzer holds \<open>Function*\<close>, \<open>BasicBlock*\<close> and \<open>CallBase*\<close> pointers in its
  sets and maps and compares them by address. Pointers are addresses here, and an
  \<open>ir\<close> gives the object at each address, with the fields the analyzer reads.
\<close>

type_synonym funcPtr = nat
type_synonym bbPtr = nat
type_synonym callPtr = nat

record debugLoc =
  locFilename :: string
  locDirectory :: string
  locLine :: nat

text \<open>
  A \<open>CallBase\<close> is a \<open>CallInst\<close>, an \<open>InvokeInst\<close> or a \<open>CallBrInst\<close>; \<open>isCallInst\<close>
  tells the first from the other two. It keeps its operands in one array: the
  arguments first, then the operands of operand bundles and the destinations of an
  invoke or callbr, and last the called operand. \<open>argTypes\<close> are the types of the
  arguments (\<open>arg_begin() .. arg_end()\<close>) and \<open>laterOperandTypes\<close> those of the
  operands stored after them. \<open>calledFunction\<close> is the result of
  \<open>getCalledFunction()\<close>, null for an indirect call, and \<open>cbType\<close> the type of the
  value of the call. The field \<open>pastOperands\<close> of an \<open>ir\<close> is explained with
  \<open>operandTypeAt\<close> below.
\<close>

record callBase =
  cbParent :: bbPtr
  isCallInst :: bool
  calledFunction :: "funcPtr option"
  isInlineAsm :: bool
  cbType :: llvmType
  argTypes :: "llvmType list"
  laterOperandTypes :: "llvmType list"

record instruction =
  debugLoc :: "debugLoc option"
  asCallBase :: "callPtr option"

record basicBlock =
  bbParent :: funcPtr
  instructions :: "instruction list"
  successors :: "bbPtr list"
  predecessors :: "bbPtr list"

record llvmFunction =
  fName :: string
  getSection :: string
  returnType :: llvmType
  paramTypes :: "llvmType list"
  isVarArg :: bool
  isIntrinsic :: bool
  isDbgInfoID :: bool
  hasAddressTaken :: bool
  hasExternalLinkage :: bool
  moduleStem :: string
  basicBlocks :: "bbPtr list"
  subprogram :: "debugLoc option"

record ir =
  functionAt :: "funcPtr \<Rightarrow> llvmFunction"
  blockAt :: "bbPtr \<Rightarrow> basicBlock"
  callAt :: "callPtr \<Rightarrow> callBase"
  pastOperands :: "callPtr \<Rightarrow> nat \<Rightarrow> llvmType"

record llvmModule =
  moduleName :: string
  moduleFunctions :: "funcPtr list"

text \<open>
  \<open>hasSection()\<close> holds when the section name is not empty. \<open>calledIntrinsic\<close> is
  the test \<open>CB->getCalledFunction() && CB->getCalledFunction()->isIntrinsic()\<close>.
  \<open>isDbgInfoID\<close> says that the function's intrinsic id is one of the \<open>llvm.dbg.*\<close>
  ids; LLVM's \<open>isa<IntrinsicInst>\<close> holds for a \<open>CallInst\<close> whose called function is an
  intrinsic (not for an invoke of one), and \<open>isa<DbgInfoIntrinsic>\<close> when moreover
  its id is a debug one.
\<close>

definition hasSection :: "llvmFunction \<Rightarrow> bool" where
  "hasSection F = (getSection F \<noteq> [])"

definition inInitText :: "llvmFunction \<Rightarrow> bool" where
  "inInitText F = (hasSection F \<and> getSection F = ''.init.text'')"

definition calledIntrinsic :: "ir \<Rightarrow> callPtr \<Rightarrow> bool" where
  "calledIntrinsic g CB =
     (case calledFunction (callAt g CB) of
        Some CF \<Rightarrow> isIntrinsic (functionAt g CF)
      | None \<Rightarrow> False)"

definition isaIntrinsicInst :: "ir \<Rightarrow> callPtr \<Rightarrow> bool" where
  "isaIntrinsicInst g CB = (isCallInst (callAt g CB) \<and> calledIntrinsic g CB)"

definition isaDbgInfoIntrinsic :: "ir \<Rightarrow> callPtr \<Rightarrow> bool" where
  "isaDbgInfoIntrinsic g CB =
     (isaIntrinsicInst g CB \<and>
      (case calledFunction (callAt g CB) of
         Some CF \<Rightarrow> isDbgInfoID (functionAt g CF)
       | None \<Rightarrow> False))"

text \<open>\<open>inst_begin(F) .. inst_end(F)\<close>: the instructions of all blocks, in order.\<close>

definition instructionsOf :: "ir \<Rightarrow> funcPtr \<Rightarrow> instruction list" where
  "instructionsOf g F =
     concat (map (\<lambda>BB. instructions (blockAt g BB)) (basicBlocks (functionAt g F)))"

definition callSitesOf :: "ir \<Rightarrow> funcPtr \<Rightarrow> callPtr list" where
  "callSitesOf g F = List.map_filter asCallBase (instructionsOf g F)"

section \<open>Call-graph construction (CallGraph.cc, IterativeModulePass::run)\<close>

text \<open>
  The part of \<open>GlobalContext\<close> that the type-based pipeline writes. Pointer sets
  are duplicate-free lists (\<open>List.insert\<close> is the set insertion, and its \<open>.second\<close>
  is "was not a member"); \<open>Callees\<close> is a map, and \<open>Callers\<close>, whose entries the
  slicer walks, an association list. \<open>FuncPtrs\<close> and the global initializers that
  fill it are read only by the assignment-based mode, which is compiled out by
  \<open>#define TYPE_BASED\<close>, and are left out.
\<close>

record globalContext =
  Funcs :: "string \<rightharpoonup> funcPtr"
  AddressTakenFuncs :: "funcPtr list"
  Callees :: "callPtr \<rightharpoonup> funcPtr list"
  Callers :: "(funcPtr \<times> callPtr list) list"
  IndirectCallInsts :: "callPtr list"

definition calleesOf :: "globalContext \<Rightarrow> callPtr \<Rightarrow> funcPtr list" where
  "calleesOf Ctx CB = (case Callees Ctx CB of None \<Rightarrow> [] | Some FS \<Rightarrow> FS)"

definition callersOf :: "globalContext \<Rightarrow> funcPtr \<Rightarrow> callPtr list" where
  "callersOf Ctx F = (case map_of (Callers Ctx) F of None \<Rightarrow> [] | Some CBS \<Rightarrow> CBS)"

definition getScopeName :: "llvmFunction \<Rightarrow> string" where
  "getScopeName F =
     (if hasExternalLinkage F then fName F
      else ''_'' @ moduleStem F @ ''.'' @ fName F)"

definition getFuncDef :: "ir \<Rightarrow> globalContext \<Rightarrow> funcPtr \<Rightarrow> funcPtr" where
  "getFuncDef g Ctx F =
     (case Funcs Ctx (getScopeName (functionAt g F)) of
        Some D \<Rightarrow> D
      | None \<Rightarrow> F)"

text \<open>
  \<open>doBasicInitialization\<close> (KAMain.cc), run on every module as it is loaded: each
  externally linked function with a body is registered in \<open>Funcs\<close> under its name,
  a leading \<open>__sys_\<close> replaced by \<open>sys_\<close>.
\<close>

definition registeredName :: "string \<Rightarrow> string" where
  "registeredName FName =
     (if take 6 FName = ''__sys_'' then ''sys_'' @ drop 6 FName else FName)"

fun doBasicInitialization :: "ir \<Rightarrow> funcPtr list \<Rightarrow> globalContext \<Rightarrow> globalContext" where
  "doBasicInitialization g [] Ctx = Ctx"
| "doBasicInitialization g (F # Fs) Ctx =
     (if hasExternalLinkage (functionAt g F) \<and> basicBlocks (functionAt g F) \<noteq> []
      then doBasicInitialization g Fs
             (Ctx\<lparr>Funcs := (Funcs Ctx)(registeredName (fName (functionAt g F)) \<mapsto> F)\<rparr>)
      else doBasicInitialization g Fs Ctx)"

definition loadModules :: "ir \<Rightarrow> llvmModule list \<Rightarrow> globalContext \<Rightarrow> globalContext" where
  "loadModules g modules Ctx =
     foldl (\<lambda>Ctx M. doBasicInitialization g (moduleFunctions M) Ctx) Ctx modules"

text \<open>
  \<open>findCalleesByType\<close> walks a \<open>User::op_iterator\<close>, a pointer into the operand
  array, from \<open>arg_begin()\<close>, one step per formal parameter of the candidate, and
  never compares it with \<open>arg_end()\<close>. \<open>operandTypeAt g CB i\<close> is the type it finds
  after \<open>i\<close> steps: that of an argument, then that of a later operand (for a plain
  call without bundles, the called operand). Past the last operand the read leaves
  the array, which C++ does not define; \<open>pastOperands g CB k\<close> stands for the type
  that the read of the \<open>k\<close>-th slot after the array then yields, and nothing is
  assumed about it.
\<close>

definition operandTypeAt :: "ir \<Rightarrow> callPtr \<Rightarrow> nat \<Rightarrow> llvmType" where
  "operandTypeAt g CB i =
     (let ops = argTypes (callAt g CB) @ laterOperandTypes (callAt g CB)
      in if i < length ops then ops ! i else pastOperands g CB (i - length ops))"

text \<open>
  The loop over the formal parameters, with the position \<open>AI\<close> of the operand
  iterator; the result is \<open>Matched\<close> on leaving it.
\<close>

fun matchParams :: "ir \<Rightarrow> callPtr \<Rightarrow> nat \<Rightarrow> llvmType list \<Rightarrow> bool" where
  "matchParams g CB AI [] = True"
| "matchParams g CB AI (FormalTy # formals) =
     (if isCompatibleType FormalTy (operandTypeAt g CB AI)
      then matchParams g CB (Suc AI) formals
      else False)"

text \<open>
  One iteration of the loop over \<open>AddressTakenFuncs\<close>. \<open>FS\<close> unchanged is
  \<open>continue\<close>.
\<close>

definition matchCandidate :: "ir \<Rightarrow> callPtr \<Rightarrow> funcPtr list \<Rightarrow> funcPtr \<Rightarrow> funcPtr list" where
  "matchCandidate g CB FS F =
     (let Fn = functionAt g F;
          rest =
            (if isIntrinsic Fn then FS
             else if matchParams g CB 0 (paramTypes Fn) then List.insert F FS
             else FS)
      in if isVarArg Fn then rest
         else if length (paramTypes Fn) \<noteq> length (argTypes (callAt g CB)) then FS
         else if \<not> isCompatibleType (returnType Fn) (cbType (callAt g CB)) then FS
         else rest)"

text \<open>\<open>findCalleesByType\<close> fills \<open>FS\<close> and always returns \<open>false\<close>.\<close>

definition findCalleesByType ::
  "ir \<Rightarrow> globalContext \<Rightarrow> callPtr \<Rightarrow> funcPtr list \<Rightarrow> bool \<times> funcPtr list" where
  "findCalleesByType g Ctx CB FS =
     (False, foldl (matchCandidate g CB) FS (AddressTakenFuncs Ctx))"

definition findCallees ::
  "ir \<Rightarrow> globalContext \<Rightarrow> callPtr \<Rightarrow> funcPtr list
     \<Rightarrow> bool \<times> funcPtr list \<times> globalContext" where
  "findCallees g Ctx CB FS =
     (case calledFunction (callAt g CB) of
        Some CF \<Rightarrow>
          (let CF' = getFuncDef g Ctx CF
           in (CF' \<notin> set FS, List.insert CF' FS, Ctx))
      | None \<Rightarrow>
          (let Ctx' = Ctx\<lparr>IndirectCallInsts := IndirectCallInsts Ctx @ [CB]\<rparr>
           in case findCalleesByType g Ctx' CB FS of
                (r, FS') \<Rightarrow> (r, FS', Ctx')))"

text \<open>
  The instruction loop of \<open>runOnFunction\<close>. \<open>FS\<close> is a reference to
  \<open>Ctx->Callees[CB]\<close>, which creates the entry; the set computed by \<open>findCallees\<close>
  is stored back under \<open>CB\<close>. With \<open>TYPE_BASED\<close> defined, nothing follows the test
  of \<open>findCallees\<close>'s result, and no statement assigns \<open>Changed\<close>.
\<close>

fun runOnInstructions ::
  "ir \<Rightarrow> instruction list \<Rightarrow> bool \<Rightarrow> globalContext \<Rightarrow> bool \<times> globalContext" where
  "runOnInstructions g [] Changed Ctx = (Changed, Ctx)"
| "runOnInstructions g (I # Is) Changed Ctx =
     (case asCallBase I of
        None \<Rightarrow> runOnInstructions g Is Changed Ctx
      | Some CB \<Rightarrow>
          if isInlineAsm (callAt g CB) \<or> calledIntrinsic g CB
          then runOnInstructions g Is Changed Ctx
          else
            (case findCallees g Ctx CB (calleesOf Ctx CB) of
               (found, FS, Ctx') \<Rightarrow>
                 (let Ctx'' = Ctx'\<lparr>Callees := (Callees Ctx')(CB \<mapsto> FS)\<rparr>
                  in if \<not> found then runOnInstructions g Is Changed Ctx''
                     else runOnInstructions g Is Changed Ctx'')))"

definition runOnFunction :: "ir \<Rightarrow> funcPtr \<Rightarrow> globalContext \<Rightarrow> bool \<times> globalContext" where
  "runOnFunction g F Ctx =
     (if hasSection (functionAt g F) \<and> getSection (functionAt g F) = ''.init.text''
      then (False, Ctx)
      else runOnInstructions g (instructionsOf g F) False Ctx)"

text \<open>\<open>for (Function &F : *M) Changed |= runOnFunction(&F);\<close>\<close>

fun runOnFunctions ::
  "ir \<Rightarrow> funcPtr list \<Rightarrow> bool \<Rightarrow> globalContext \<Rightarrow> bool \<times> globalContext" where
  "runOnFunctions g [] Changed Ctx = (Changed, Ctx)"
| "runOnFunctions g (F # Fs) Changed Ctx =
     (case runOnFunction g F Ctx of
        (c, Ctx') \<Rightarrow> runOnFunctions g Fs (Changed \<or> c) Ctx')"

text \<open>
  \<open>doModulePass\<close>: \<open>while (Changed) { Changed = false; ...; ret |= Changed; }\<close>.
  \<open>None\<close> stands for a loop that never ends.
\<close>

partial_function (option) doModulePassLoop ::
  "ir \<Rightarrow> llvmModule \<Rightarrow> bool \<Rightarrow> bool \<Rightarrow> globalContext \<Rightarrow> (bool \<times> globalContext) option" where
  "doModulePassLoop g M Changed ret Ctx =
     (if Changed then
        (case runOnFunctions g (moduleFunctions M) False Ctx of
           (Changed', Ctx') \<Rightarrow> doModulePassLoop g M Changed' (ret \<or> Changed') Ctx')
      else Some (ret, Ctx))"

definition doModulePass ::
  "ir \<Rightarrow> llvmModule \<Rightarrow> globalContext \<Rightarrow> (bool \<times> globalContext) option" where
  "doModulePass g M Ctx = doModulePassLoop g M True False Ctx"

text \<open>
  \<open>doInitialization\<close>: every function outside \<open>.init.text\<close> whose address is taken
  enters \<open>AddressTakenFuncs\<close>; the result is always \<open>false\<close>.
\<close>

fun collectAddressTaken :: "ir \<Rightarrow> funcPtr list \<Rightarrow> globalContext \<Rightarrow> globalContext" where
  "collectAddressTaken g [] Ctx = Ctx"
| "collectAddressTaken g (F # Fs) Ctx =
     (if hasSection (functionAt g F) \<and> getSection (functionAt g F) = ''.init.text''
      then collectAddressTaken g Fs Ctx
      else if hasAddressTaken (functionAt g F)
        then collectAddressTaken g Fs
               (Ctx\<lparr>AddressTakenFuncs := List.insert F (AddressTakenFuncs Ctx)\<rparr>)
      else collectAddressTaken g Fs Ctx)"

definition doInitialization ::
  "ir \<Rightarrow> llvmModule \<Rightarrow> globalContext \<Rightarrow> bool \<times> globalContext" where
  "doInitialization g M Ctx = (False, collectAddressTaken g (moduleFunctions M) Ctx)"

text \<open>
  \<open>doFinalization\<close>: for every call of every function of the module, debug-info
  intrinsics apart, the call enters \<open>Callers[CF]\<close> for each \<open>CF\<close> of its callee set.
  Reading \<open>Ctx->Callees[CB]\<close> creates a missing entry.
\<close>

definition addCaller :: "callPtr \<Rightarrow> globalContext \<Rightarrow> funcPtr \<Rightarrow> globalContext" where
  "addCaller CB Ctx CF =
     Ctx\<lparr>Callers := AList.update CF (List.insert CB (callersOf Ctx CF)) (Callers Ctx)\<rparr>"

fun finalizeInstructions ::
  "ir \<Rightarrow> instruction list \<Rightarrow> globalContext \<Rightarrow> globalContext" where
  "finalizeInstructions g [] Ctx = Ctx"
| "finalizeInstructions g (I # Is) Ctx =
     (case asCallBase I of
        None \<Rightarrow> finalizeInstructions g Is Ctx
      | Some CB \<Rightarrow>
          if isaDbgInfoIntrinsic g CB then finalizeInstructions g Is Ctx
          else
            (let FS = calleesOf Ctx CB;
                 Ctx' = Ctx\<lparr>Callees := (Callees Ctx)(CB \<mapsto> FS)\<rparr>
             in finalizeInstructions g Is (foldl (addCaller CB) Ctx' FS)))"

definition doFinalization ::
  "ir \<Rightarrow> llvmModule \<Rightarrow> globalContext \<Rightarrow> bool \<times> globalContext" where
  "doFinalization g M Ctx =
     (False,
      foldl (\<lambda>Ctx F. finalizeInstructions g (instructionsOf g F) Ctx) Ctx (moduleFunctions M))"

text \<open>
  \<open>IterativeModulePass::run\<close>. The first and third loops repeat a sweep over the
  modules while a pass answered \<open>true\<close>; the second counts, in an \<open>unsigned\<close>, the
  modules whose \<open>doModulePass\<close> answered \<open>true\<close> and repeats while the count is not
  zero.
\<close>

fun sweepModules ::
  "(llvmModule \<Rightarrow> globalContext \<Rightarrow> bool \<times> globalContext)
     \<Rightarrow> llvmModule list \<Rightarrow> bool \<Rightarrow> globalContext \<Rightarrow> bool \<times> globalContext" where
  "sweepModules pass [] again Ctx = (again, Ctx)"
| "sweepModules pass (M # Ms) again Ctx =
     (case pass M Ctx of (r, Ctx') \<Rightarrow> sweepModules pass Ms (again \<or> r) Ctx')"

partial_function (option) whileAgain ::
  "(llvmModule \<Rightarrow> globalContext \<Rightarrow> bool \<times> globalContext)
     \<Rightarrow> llvmModule list \<Rightarrow> bool \<Rightarrow> globalContext \<Rightarrow> globalContext option" where
  "whileAgain pass modules again Ctx =
     (if again then
        (case sweepModules pass modules False Ctx of
           (again', Ctx') \<Rightarrow> whileAgain pass modules again' Ctx')
      else Some Ctx)"

fun sweepModulePasses ::
  "ir \<Rightarrow> llvmModule list \<Rightarrow> nat \<Rightarrow> globalContext \<Rightarrow> (nat \<times> globalContext) option" where
  "sweepModulePasses g [] changed Ctx = Some (changed, Ctx)"
| "sweepModulePasses g (M # Ms) changed Ctx =
     (case doModulePass g M Ctx of
        None \<Rightarrow> None
      | Some (ret, Ctx') \<Rightarrow>
          sweepModulePasses g Ms (if ret then (changed + 1) mod 2 ^ 32 else changed) Ctx')"

partial_function (option) whileChanged ::
  "ir \<Rightarrow> llvmModule list \<Rightarrow> nat \<Rightarrow> globalContext \<Rightarrow> globalContext option" where
  "whileChanged g modules changed Ctx =
     (if changed \<noteq> 0 then
        (case sweepModulePasses g modules 0 Ctx of
           None \<Rightarrow> None
         | Some (changed', Ctx') \<Rightarrow> whileChanged g modules changed' Ctx')
      else Some Ctx)"

definition run :: "ir \<Rightarrow> llvmModule list \<Rightarrow> globalContext \<Rightarrow> globalContext option" where
  "run g modules Ctx =
     (case whileAgain (doInitialization g) modules True Ctx of
        None \<Rightarrow> None
      | Some Ctx1 \<Rightarrow>
          (case whileChanged g modules 1 Ctx1 of
             None \<Rightarrow> None
           | Some Ctx2 \<Rightarrow> whileAgain (doFinalization g) modules True Ctx2))"

section \<open>The slicer (Slicing.cc, Slicing.h)\<close>

text \<open>
  The members of \<open>Slicing\<close> that the slicing methods read and write, named as in
  the source without the trailing underscore; \<open>slicerCtx\<close> is the member \<open>Ctx_\<close>, the
  registry. \<open>addToVerbose\<close> reads \<open>Ctx_->Callers[F]\<close>, which creates a missing entry.
  The \<open>std::set\<close>s are duplicate-free lists; only membership is modelled, not the
  order in which a set is walked or written to a file. \<open>fullFunc\<close> is filled by
  \<open>cacheAllLLVMObjects\<close>; the two maps that method also fills are never read.
\<close>

record slicing =
  slicerCtx :: globalContext
  slicedFuncCnt :: int
  visitedF :: "funcPtr list"
  verboseF :: "funcPtr list"
  visitedBB :: "bbPtr list"
  fVisitedF :: "funcPtr list"
  verboseBB :: "bbPtr list"
  fullFunc :: "string list"

definition insertAll :: "'a list \<Rightarrow> 'a list \<Rightarrow> 'a list" where
  "insertAll xs S = foldl (\<lambda>S x. List.insert x S) S xs"

text \<open>The constructor \<open>Slicing(Ctx, srcRoot)\<close> followed by \<open>cacheAllLLVMObjects()\<close>.\<close>

definition cacheAllLLVMObjects :: "ir \<Rightarrow> llvmModule list \<Rightarrow> slicing \<Rightarrow> slicing" where
  "cacheAllLLVMObjects g modules s =
     s\<lparr>fullFunc :=
         insertAll
           (map (\<lambda>F. fName (functionAt g F) @ ''\<newline>'')
              (filter (\<lambda>F. subprogram (functionAt g F) \<noteq> None)
                 (concat (map moduleFunctions modules))))
           []\<rparr>"

definition newSlicing :: "globalContext \<Rightarrow> slicing" where
  "newSlicing Ctx =
     \<lparr> slicerCtx = Ctx, slicedFuncCnt = 1, visitedF = [], verboseF = [], visitedBB = [],
       fVisitedF = [], verboseBB = [], fullFunc = [] \<rparr>"

definition clear :: "slicing \<Rightarrow> slicing" where
  "clear s =
     s\<lparr>visitedF := [], verboseF := [], visitedBB := [], fVisitedF := [],
       verboseBB := [], slicedFuncCnt := 1\<rparr>"

subsection \<open>intraCanReach\<close>

text \<open>
  The loop state is (found, visited, toVisit), the stack with its top first. A
  \<open>while\<close> loop is \<open>while_option\<close>: \<open>None\<close> when it never ends.
\<close>

definition intraCanReachStep ::
  "ir \<Rightarrow> bbPtr \<Rightarrow> bool \<times> bbPtr list \<times> bbPtr list \<Rightarrow> bool \<times> bbPtr list \<times> bbPtr list" where
  "intraCanReachStep g dst = (\<lambda>(found, visited, toVisit).
     case toVisit of
       [] \<Rightarrow> (found, visited, toVisit)
     | current # rest \<Rightarrow>
         if current \<notin> set visited then
           (if current = dst then (True, List.insert current visited, rest)
            else (False, List.insert current visited,
                  rev (successors (blockAt g current)) @ rest))
         else (False, visited, rest))"

definition intraCanReach :: "ir \<Rightarrow> bbPtr \<Rightarrow> bbPtr \<Rightarrow> bool option" where
  "intraCanReach g src dst =
     map_option fst
       (while_option (\<lambda>(found, visited, toVisit). \<not> found \<and> toVisit \<noteq> [])
          (intraCanReachStep g dst) (False, [], [src]))"

subsection \<open>addToVerbose\<close>

text \<open>
  The body of the loops over the instructions of the enclosing function, for one
  call \<open>CB\<close> of \<open>Callers[F]\<close> with block \<open>fBB\<close>. Pointers of the IR are never null, so
  the null tests of the source always pass.
\<close>

fun addOtherCalls ::
  "ir \<Rightarrow> bbPtr \<Rightarrow> instruction list \<Rightarrow> funcPtr list \<Rightarrow> funcPtr list option" where
  "addOtherCalls g fBB [] vF = Some vF"
| "addOtherCalls g fBB (I # Is) vF =
     (case asCallBase I of
        None \<Rightarrow> addOtherCalls g fBB Is vF
      | Some CB' \<Rightarrow>
          if isaIntrinsicInst g CB' then addOtherCalls g fBB Is vF
          else
            (case intraCanReach g (cbParent (callAt g CB')) fBB of
               None \<Rightarrow> None
             | Some canReach \<Rightarrow>
                 if canReach then
                   (case calledFunction (callAt g CB') of
                      Some otherF \<Rightarrow> addOtherCalls g fBB Is (List.insert otherF vF)
                    | None \<Rightarrow> addOtherCalls g fBB Is vF)
                 else addOtherCalls g fBB Is vF))"

fun addToVerboseCalls ::
  "ir \<Rightarrow> callPtr list \<Rightarrow> funcPtr list \<Rightarrow> funcPtr list option" where
  "addToVerboseCalls g [] vF = Some vF"
| "addToVerboseCalls g (CB # CBS) vF =
     (let fBB = cbParent (callAt g CB);
          enclosingF = bbParent (blockAt g fBB)
      in case addOtherCalls g fBB (instructionsOf g enclosingF) vF of
           None \<Rightarrow> None
         | Some vF' \<Rightarrow> addToVerboseCalls g CBS vF')"

definition addToVerbose :: "ir \<Rightarrow> funcPtr \<Rightarrow> slicing \<Rightarrow> slicing option" where
  "addToVerbose g F s =
     (if F \<in> set (verboseF s) then Some s
      else
        (let s1 = s\<lparr>verboseF := List.insert F (verboseF s)\<rparr>;
             CBS = callersOf (slicerCtx s1) F;
             s2 = s1\<lparr>slicerCtx := (slicerCtx s1)\<lparr>Callers := AList.update F CBS (Callers (slicerCtx s1))\<rparr>\<rparr>
         in case addToVerboseCalls g CBS (verboseF s2) of
              None \<Rightarrow> None
            | Some vF \<Rightarrow> Some (s2\<lparr>verboseF := vF\<rparr>)))"

subsection \<open>backtracking and sliceFunction\<close>

text \<open>
  The predecessors that the \<open>for\<close> loop of \<open>backtracking\<close> reaches: it leaves the
  loop at the first predecessor equal to the one before it.
\<close>

fun predsUntilRepeat :: "bbPtr option \<Rightarrow> bbPtr list \<Rightarrow> bbPtr list" where
  "predsUntilRepeat lastPred [] = []"
| "predsUntilRepeat lastPred (Pred # Preds) =
     (if Some Pred = lastPred then []
      else Pred # predsUntilRepeat (Some Pred) Preds)"

definition backtrackingStep ::
  "ir \<Rightarrow> bbPtr list \<times> bbPtr list \<Rightarrow> bbPtr list \<times> bbPtr list" where
  "backtrackingStep g = (\<lambda>(vBB, toVisit).
     case toVisit of
       [] \<Rightarrow> (vBB, toVisit)
     | current # rest \<Rightarrow>
         if current \<notin> set vBB then
           (let vBB' = List.insert current vBB;
                pushed = filter (\<lambda>Pred. Pred \<notin> set vBB')
                           (predsUntilRepeat None (predecessors (blockAt g current)))
            in (vBB', rev pushed @ rest))
         else (vBB, rest))"

definition backtrackingLoop :: "ir \<Rightarrow> bbPtr list \<Rightarrow> bbPtr \<Rightarrow> bbPtr list option" where
  "backtrackingLoop g vBB0 BB =
     map_option fst
       (while_option (\<lambda>(vBB, toVisit). toVisit \<noteq> []) (backtrackingStep g)
          (vBB0, [BB]))"

text \<open>
  The straight-line parts of \<open>sliceFunction\<close>: marking \<open>F\<close> and its blocks as
  visited; the sets of \<open>Callers\<close> whose key has the name of \<open>F\<close>; the blocks of
  their calls that are not yet visited, in the order they are queued; and the final
  increment of the counter, once, when one of the sets is not empty.
\<close>

definition markVisited :: "ir \<Rightarrow> funcPtr \<Rightarrow> slicing \<Rightarrow> slicing" where
  "markVisited g F s =
     s\<lparr>visitedF := List.insert F (visitedF s),
       visitedBB := insertAll (basicBlocks (functionAt g F)) (visitedBB s)\<rparr>"

definition matchingCBS :: "ir \<Rightarrow> funcPtr \<Rightarrow> slicing \<Rightarrow> callPtr list list" where
  "matchingCBS g F s =
     map snd
       (filter (\<lambda>entry. fName (functionAt g (fst entry)) = fName (functionAt g F))
          (Callers (slicerCtx s)))"

definition toProcess :: "ir \<Rightarrow> funcPtr \<Rightarrow> slicing \<Rightarrow> bbPtr list" where
  "toProcess g F s =
     filter (\<lambda>BB. BB \<notin> set (visitedBB s))
       (map (\<lambda>CB. cbParent (callAt g CB)) (concat (matchingCBS g F s)))"

definition countSliced :: "callPtr list list \<Rightarrow> slicing \<Rightarrow> slicing" where
  "countSliced CBSs s =
     (if list_ex (\<lambda>CBS. CBS \<noteq> []) CBSs then s\<lparr>slicedFuncCnt := slicedFuncCnt s + 1\<rparr>
      else s)"

text \<open>
  \<open>sliceFunction\<close> calls \<open>backtracking\<close> for every queued block, and \<open>backtracking\<close>
  ends by calling \<open>sliceFunction\<close> on the function of its block. The first argument
  bounds the depth of this recursion (\<open>None\<close> when it is exceeded). The sets of
  \<open>matchingCBS\<close> are pointers into \<open>Callers\<close>, whose sets no longer change.
\<close>

fun sliceFunction :: "nat \<Rightarrow> ir \<Rightarrow> funcPtr \<Rightarrow> slicing \<Rightarrow> slicing option"
  and backtrackQueue :: "nat \<Rightarrow> ir \<Rightarrow> bbPtr list \<Rightarrow> slicing \<Rightarrow> slicing option"
  and backtracking :: "nat \<Rightarrow> ir \<Rightarrow> bbPtr \<Rightarrow> slicing \<Rightarrow> slicing option" where
  "sliceFunction 0 g F s = None"
| "sliceFunction (Suc fuel) g F s =
     (if F \<in> set (visitedF s) then Some s
      else
        (case addToVerbose g F (markVisited g F s) of
           None \<Rightarrow> None
         | Some s3 \<Rightarrow>
             if matchingCBS g F s3 = [] then Some s3
             else
               (case backtrackQueue fuel g (toProcess g F s3) s3 of
                  None \<Rightarrow> None
                | Some s4 \<Rightarrow> Some (countSliced (matchingCBS g F s3) s4))))"
| "backtrackQueue fuel g [] s = Some s"
| "backtrackQueue fuel g (BB # BBs) s =
     (case backtracking fuel g BB s of
        None \<Rightarrow> None
      | Some s' \<Rightarrow> backtrackQueue fuel g BBs s')"
| "backtracking 0 g BB s = None"
| "backtracking (Suc fuel) g BB s =
     (case backtrackingLoop g (visitedBB s) BB of
        None \<Rightarrow> None
      | Some vBB \<Rightarrow>
          sliceFunction fuel g (bbParent (blockAt g BB)) (s\<lparr>visitedBB := vBB\<rparr>))"

subsection \<open>Forward slicing\<close>

text \<open>
  The loop state of \<open>forwardSlicingFunction\<close> is (verboseBB, fVisitedF, visited,
  toVisit), the queue with its front first.
\<close>

definition enqueueCallee ::
  "ir \<Rightarrow> funcPtr list \<times> bbPtr list \<Rightarrow> funcPtr \<Rightarrow> funcPtr list \<times> bbPtr list" where
  "enqueueCallee g = (\<lambda>(fV, toVisit) callee.
     if callee \<notin> set fV
     then (List.insert callee fV, toVisit @ basicBlocks (functionAt g callee))
     else (fV, toVisit))"

definition enqueueCallees ::
  "ir \<Rightarrow> globalContext \<Rightarrow> funcPtr list \<times> bbPtr list \<Rightarrow> instruction
     \<Rightarrow> funcPtr list \<times> bbPtr list" where
  "enqueueCallees g Ctx st I =
     (case asCallBase I of
        None \<Rightarrow> st
      | Some CB \<Rightarrow>
          (case Callees Ctx CB of
             None \<Rightarrow> st
           | Some funcSet \<Rightarrow> foldl (enqueueCallee g) st funcSet))"

definition forwardStep ::
  "ir \<Rightarrow> globalContext \<Rightarrow> bbPtr list \<times> funcPtr list \<times> bbPtr list \<times> bbPtr list
     \<Rightarrow> bbPtr list \<times> funcPtr list \<times> bbPtr list \<times> bbPtr list" where
  "forwardStep g Ctx = (\<lambda>(vbBB, fV, visited, toVisit).
     case toVisit of
       [] \<Rightarrow> (vbBB, fV, visited, toVisit)
     | current # rest \<Rightarrow>
         (let vbBB' = List.insert current vbBB
          in if current \<notin> set visited then
               (case foldl (enqueueCallees g Ctx) (fV, rest)
                       (instructions (blockAt g current)) of
                  (fV', toVisit') \<Rightarrow>
                    (vbBB', fV', List.insert current visited, toVisit'))
             else (vbBB', fV, visited, rest)))"

definition forwardSlicingFunction :: "ir \<Rightarrow> funcPtr \<Rightarrow> slicing \<Rightarrow> slicing option" where
  "forwardSlicingFunction g F s =
     (case while_option (\<lambda>(vbBB, fV, visited, toVisit). toVisit \<noteq> [])
             (forwardStep g (slicerCtx s))
             (verboseBB s, fVisitedF s, [], basicBlocks (functionAt g F)) of
        None \<Rightarrow> None
      | Some (vbBB, fV, visited, toVisit) \<Rightarrow>
          Some (s\<lparr>verboseBB := vbBB, fVisitedF := fV\<rparr>))"

text \<open>\<open>Module::getFunction(name)\<close>: the function of that name in the module.\<close>

definition getFunction :: "ir \<Rightarrow> llvmModule \<Rightarrow> string \<Rightarrow> funcPtr option" where
  "getFunction g M name = find (\<lambda>F. fName (functionAt g F) = name) (moduleFunctions M)"

fun firstFunction :: "ir \<Rightarrow> llvmModule list \<Rightarrow> string \<Rightarrow> funcPtr option" where
  "firstFunction g [] name = None"
| "firstFunction g (M # Ms) name =
     (case getFunction g M name of
        Some F \<Rightarrow> Some F
      | None \<Rightarrow> firstFunction g Ms name)"

definition forwardSlicingFunctionStub ::
  "ir \<Rightarrow> llvmModule list \<Rightarrow> string \<Rightarrow> slicing \<Rightarrow> slicing option" where
  "forwardSlicingFunctionStub g modules funcName s =
     (case firstFunction g modules funcName of
        None \<Rightarrow> Some s
      | Some F \<Rightarrow> forwardSlicingFunction g F s)"

text \<open>
  \<open>forwardSlicingFunctionWithDepth\<close>. The three nested loops make one recursive
  call per member of the callee set of each call of \<open>F\<close>, in order: \<open>calleeList\<close>.
  \<open>depth\<close> is a C \<open>int\<close> and is only compared with zero, so the recursion need not
  end; the first argument bounds its depth (\<open>None\<close> when it is exceeded).
\<close>

definition calleeList :: "ir \<Rightarrow> globalContext \<Rightarrow> funcPtr \<Rightarrow> funcPtr list" where
  "calleeList g Ctx F =
     concat (map (\<lambda>CB. case Callees Ctx CB of None \<Rightarrow> [] | Some funcSet \<Rightarrow> funcSet)
               (callSitesOf g F))"

fun forwardSlicingFunctionWithDepth ::
    "nat \<Rightarrow> ir \<Rightarrow> globalContext \<Rightarrow> funcPtr \<Rightarrow> int \<Rightarrow> funcPtr list \<Rightarrow> funcPtr list option"
  and forwardCallees ::
    "nat \<Rightarrow> ir \<Rightarrow> globalContext \<Rightarrow> funcPtr list \<Rightarrow> int \<Rightarrow> funcPtr list \<Rightarrow> funcPtr list option"
  where
  "forwardSlicingFunctionWithDepth 0 g Ctx F depth visited = None"
| "forwardSlicingFunctionWithDepth (Suc fuel) g Ctx F depth visited =
     (let visited' = List.insert F visited
      in if depth = 0 then Some visited'
         else forwardCallees fuel g Ctx (calleeList g Ctx F) (depth - 1) visited')"
| "forwardCallees fuel g Ctx [] depth visited = Some visited"
| "forwardCallees fuel g Ctx (callee # callees) depth visited =
     (case forwardSlicingFunctionWithDepth fuel g Ctx callee depth visited of
        None \<Rightarrow> None
      | Some visited' \<Rightarrow> forwardCallees fuel g Ctx callees depth visited')"

subsection \<open>Target lookup\<close>

text \<open>\<open>haystack.find(needle) != std::string::npos\<close>.\<close>

primrec strContains :: "string \<Rightarrow> string \<Rightarrow> bool" where
  "strContains needle [] = (needle = [])"
| "strContains needle (c # cs) =
     (take (length needle) (c # cs) = needle \<or> strContains needle cs)"

text \<open>
  \<open>findTargetByFunctionName\<close>: the test sits inside the loop over the blocks of
  \<open>F\<close>, so a function without blocks is never returned; the file name is not used.
\<close>

definition nameMatches :: "string \<Rightarrow> string \<Rightarrow> bool" where
  "nameMatches name funcName =
     (name = funcName \<or> (strContains funcName name \<and> strContains ''_Z'' name))"

definition findTargetByFunctionName ::
  "ir \<Rightarrow> llvmModule list \<Rightarrow> string \<Rightarrow> string \<Rightarrow> funcPtr option" where
  "findTargetByFunctionName g modules fileName funcName =
     find (\<lambda>F. basicBlocks (functionAt g F) \<noteq> [] \<and> nameMatches (fName (functionAt g F)) funcName)
       (concat (map moduleFunctions modules))"

text \<open>
  \<open>findTargetByLine\<close>: the first block, among the modules whose name contains
  \<open>fileName\<close>, with an instruction located at \<open>line\<close>. The \<open>int\<close> line is compared
  with the \<open>unsigned\<close> line of the location, hence taken modulo \<open>2^32\<close>.
\<close>

definition locatedAt :: "int \<Rightarrow> instruction \<Rightarrow> bool" where
  "locatedAt line I =
     (case debugLoc I of
        None \<Rightarrow> False
      | Some Loc \<Rightarrow> int (locLine Loc) = line mod 2 ^ 32)"

definition findTargetByLine ::
  "ir \<Rightarrow> llvmModule list \<Rightarrow> string \<Rightarrow> int \<Rightarrow> bbPtr option" where
  "findTargetByLine g modules fileName line =
     find (\<lambda>BB. list_ex (locatedAt line) (instructions (blockAt g BB)))
       (concat (map (\<lambda>F. basicBlocks (functionAt g F))
          (concat (map moduleFunctions
             (filter (\<lambda>M. strContains fileName (moduleName M)) modules)))))"

subsection \<open>dump\<close>

text \<open>
  The contents of the five files \<open>.slice\<close>, \<open>.slice.verbose\<close>, \<open>.func\<close>,
  \<open>.func.verbose\<close> and \<open>.func.blacklist\<close>, as the sets of lines written to the
  five streams (the order of the lines is not modelled).
\<close>

record outputFiles =
  outputFile :: "string list"
  outputFileVerbose :: "string list"
  outputFileFunc :: "string list"
  outputFileFuncVerbose :: "string list"
  outputFileFuncBlacklist :: "string list"

text \<open>\<open>std::to_string\<close> of an unsigned number.\<close>

fun to_string :: "nat \<Rightarrow> string" where
  "to_string n =
     (if n < 10 then [''0123456789'' ! n]
      else to_string (n div 10) @ [''0123456789'' ! (n mod 10)])"

definition nameLine :: "ir \<Rightarrow> funcPtr \<Rightarrow> string" where
  "nameLine g F = fName (functionAt g F) @ ''\<newline>''"

text \<open>
  The line of a block: that of its first instruction with a location whose line is
  not zero; the file name is normalized only when it contains \<open>..\<close>.
\<close>

fun blockLine :: "instruction list \<Rightarrow> string option" where
  "blockLine [] = None"
| "blockLine (I # Is) =
     (case debugLoc I of
        None \<Rightarrow> blockLine Is
      | Some loc \<Rightarrow>
          if locLine loc \<noteq> 0 then
            (let file = (if strContains ''..'' (locFilename loc)
                         then normalizePath (locFilename loc) else locFilename loc)
             in Some (''block:'' @ locDirectory loc @ ''/'' @ file @ '':''
                      @ to_string (locLine loc) @ '':100'' @ ''\<newline>''))
          else blockLine Is)"

text \<open>
  One round of the loop over \<open>visitedBB_\<close>; the state is (uniqueOutputs,
  uniqueOutputsVerbose, uniqueOutputsFunc, uniqueOutputsFuncVerbose). \<open>printFunc\<close>
  is \<open>false\<close>, so no \<open>func:\<close> line is written.
\<close>

definition dumpVisitedBlock ::
  "ir \<Rightarrow> string list \<times> string list \<times> string list \<times> string list \<Rightarrow> bbPtr
     \<Rightarrow> string list \<times> string list \<times> string list \<times> string list" where
  "dumpVisitedBlock g = (\<lambda>(uo, uov, uof, uofv) BB.
     (let F = bbParent (blockAt g BB);
          uof' = List.insert (nameLine g F) uof;
          uofv' = List.insert (nameLine g F) uofv
      in case blockLine (instructions (blockAt g BB)) of
           None \<Rightarrow> (uo, uov, uof', uofv')
         | Some l \<Rightarrow> (List.insert l uo, List.insert l uov, uof', uofv')))"

fun forwardSliceAll :: "ir \<Rightarrow> funcPtr list \<Rightarrow> slicing \<Rightarrow> slicing option" where
  "forwardSliceAll g [] s = Some s"
| "forwardSliceAll g (F # Fs) s =
     (case forwardSlicingFunction g F s of
        None \<Rightarrow> None
      | Some s' \<Rightarrow> forwardSliceAll g Fs s')"

text \<open>
  \<open>dump\<close>. The five streams are opened with one \<open>std::error_code EC\<close>, which each
  opening overwrites; \<open>EC\<close> here says that it is set after the last one. Then
  \<open>dump\<close> returns at once: nothing is written and the slicer is unchanged.
  Otherwise it forward-slices every function of \<open>verboseF_\<close>; expands \<open>verboseF_\<close> to
  depth 1 (the second loop calls \<open>forwardSlicingFunctionWithDepth\<close> on every member
  with the same \<open>visitedFuncsWithDepth\<close>, which is \<open>forwardCallees\<close>); collects the
  lines; and writes them and the blacklist to the streams.
\<close>

definition dump ::
  "nat \<Rightarrow> ir \<Rightarrow> bool \<Rightarrow> slicing \<Rightarrow> (slicing \<times> outputFiles option) option" where
  "dump fuel g EC s =
     (if EC then Some (s, None)
      else
        (case forwardSliceAll g (verboseF s) s of
           None \<Rightarrow> None
         | Some s1 \<Rightarrow>
             (case forwardCallees fuel g (slicerCtx s1) (verboseF s1) 1 [] of
                None \<Rightarrow> None
              | Some visitedFuncsWithDepth \<Rightarrow>
                  (let uof0 = insertAll (map (nameLine g) (verboseF s1)) [];
                       uof1 = insertAll (map (nameLine g) visitedFuncsWithDepth) uof0
                   in case foldl (dumpVisitedBlock g) ([], [], uof1, []) (visitedBB s1) of
                        (uo, uov, uof, uofv) \<Rightarrow>
                          (let uofv' = insertAll
                                         (map (\<lambda>BB. nameLine g (bbParent (blockAt g BB)))
                                            (verboseBB s1)) uofv
                           in Some (s1,
                                Some \<lparr> outputFile = uo, outputFileVerbose = uov,
                                  outputFileFunc = uof, outputFileFuncVerbose = uofv',
                                  outputFileFuncBlacklist =
                                    filter (\<lambda>name. name \<notin> set uofv') (fullFunc s1) \<rparr>))))))"

subsection \<open>The slicing phase of main (KAMain.cc)\<close>

text \<open>
  What \<open>main\<close> does for a target function once it is found: the backward slice,
  the forward slice, and the forward slices of the three fuzzer entry points.
\<close>

definition sliceTarget ::
  "nat \<Rightarrow> ir \<Rightarrow> llvmModule list \<Rightarrow> funcPtr \<Rightarrow> slicing \<Rightarrow> slicing option" where
  "sliceTarget fuel g modules targetFunc s =
     (case sliceFunction fuel g targetFunc s of
        None \<Rightarrow> None
      | Some s1 \<Rightarrow>
          (case forwardSlicingFunction g targetFunc s1 of
             None \<Rightarrow> None
           | Some s2 \<Rightarrow>
               (case forwardSlicingFunctionStub g modules ''LLVMFuzzerInitialize'' s2 of
                  None \<Rightarrow> None
                | Some s3 \<Rightarrow>
                    (case forwardSlicingFunctionStub g modules ''LLVMFuzzerTestOneInput'' s3 of
                       None \<Rightarrow> None
                     | Some s4 \<Rightarrow>
                         forwardSlicingFunctionStub g modules ''LLVMFuzzerRunDriver'' s4))))"

text \<open>
  A line of the batch file: \<open>std::getline(iss, file_, ' ')\<close> takes the text before
  the first blank, \<open>std::getline(iss, func_)\<close> the rest, and fails when nothing is
  left, as it does when the line has no blank.
\<close>

definition parseTargetLine :: "string \<Rightarrow> (string \<times> string) option" where
  "parseTargetLine line =
     (let file = takeWhile (\<lambda>c. c \<noteq> CHR '' '') line;
          rest = dropWhile (\<lambda>c. c \<noteq> CHR '' '') line
      in if rest = [] \<or> tl rest = [] then None else Some (file, tl rest))"

text \<open>
  The batch loop of \<open>main\<close>, over the lines of the config file. A pair that does not
  parse or whose function is not found is skipped. Nothing stands between the
  slicing of one pair and the next: the calls of \<open>dump\<close> and \<open>clear\<close> in the loop are
  commented out in the source.
\<close>

fun sliceTargets ::
  "nat \<Rightarrow> ir \<Rightarrow> llvmModule list \<Rightarrow> string list \<Rightarrow> slicing \<Rightarrow> slicing option" where
  "sliceTargets fuel g modules [] Sl = Some Sl"
| "sliceTargets fuel g modules (line # lines) Sl =
     (case parseTargetLine line of
        None \<Rightarrow> sliceTargets fuel g modules lines Sl
      | Some (file, func) \<Rightarrow>
          (case findTargetByFunctionName g modules file func of
             None \<Rightarrow> sliceTargets fuel g modules lines Sl
           | Some targetFunc \<Rightarrow>
               (case sliceTarget fuel g modules targetFunc Sl of
                  None \<Rightarrow> None
                | Some Sl' \<Rightarrow> sliceTargets fuel g modules lines Sl')))"

text \<open>
  The \<open>if (ProgramSlicing)\<close> block of \<open>main\<close>: the exit code and the files written
  (\<open>None\<close> when no file is written). \<open>configLines\<close> are the lines of the batch file
  named by \<open>--multi\<close>, and \<open>EC\<close> is the error code that \<open>dump\<close> finds after opening
  its files.
\<close>

definition dumpAndExit ::
  "nat \<Rightarrow> ir \<Rightarrow> bool \<Rightarrow> slicing option \<Rightarrow> (int \<times> outputFiles option) option" where
  "dumpAndExit fuel g EC r =
     (case r of
        None \<Rightarrow> None
      | Some Sl \<Rightarrow>
          (case dump fuel g EC Sl of
             None \<Rightarrow> None
           | Some (Sl', files) \<Rightarrow> Some (0, files)))"

definition slicingPhase ::
  "nat \<Rightarrow> ir \<Rightarrow> llvmModule list \<Rightarrow> options \<Rightarrow> string list \<Rightarrow> bool \<Rightarrow> globalContext
     \<Rightarrow> (int \<times> outputFiles option) option" where
  "slicingPhase fuel g modules opts configLines EC Ctx =
     (let Sl = cacheAllLLVMObjects g modules (newSlicing Ctx)
      in if \<not> CallGraph opts then Some (- 1, None)
         else if MultiTargetPairsConfig opts \<noteq> [] then
           dumpAndExit fuel g EC (sliceTargets fuel g modules configLines Sl)
         else if TargetLine opts \<noteq> 0 then
           (case findTargetByLine g modules (TargetName opts) (TargetLine opts) of
              None \<Rightarrow> Some (- 1, None)
            | Some targetBB \<Rightarrow> dumpAndExit fuel g EC (backtracking fuel g targetBB Sl))
         else if TargetFunc opts \<noteq> [] then
           (case findTargetByFunctionName g modules (TargetName opts) (TargetFunc opts) of
              None \<Rightarrow> Some (- 1, None)
            | Some targetFunc \<Rightarrow>
                dumpAndExit fuel g EC (sliceTarget fuel g modules targetFunc Sl))
         else Some (- 1, None))"

section \<open>Notions used to state the results\<close>

text \<open>
  The components that \<open>normalizePath\<close> keeps, and what each of them is: not empty,
  without \<open>/\<close>, and neither \<open>.\<close> nor \<open>..\<close>.
\<close>

definition goodComponent :: "string \<Rightarrow> bool" where
  "goodComponent c = (c \<noteq> [] \<and> CHR ''/'' \<notin> set c \<and> c \<noteq> ''.'' \<and> c \<noteq> ''..'')"

definition componentsOf :: "string \<Rightarrow> string list" where
  "componentsOf pathStr = foldl pushComponent [] (getlineAll [] pathStr)"

text \<open>
  The functions of all modules in load order, their instructions, the functions
  outside \<open>.init.text\<close>, the calls among a list of instructions, and the calls that
  \<open>runOnFunction\<close> does not skip. \<open>accepted\<close> collects the tests a candidate passes
  in \<open>findCalleesByType\<close> before it is inserted, and \<open>targets\<close> is what one visit
  of a call adds to its callee set.
\<close>

definition allFunctions :: "llvmModule list \<Rightarrow> funcPtr list" where
  "allFunctions Ms = concat (map moduleFunctions Ms)"

definition allInstructions :: "ir \<Rightarrow> funcPtr list \<Rightarrow> instruction list" where
  "allInstructions g Fs = concat (map (instructionsOf g) Fs)"

definition liveFunctions :: "ir \<Rightarrow> funcPtr list \<Rightarrow> funcPtr list" where
  "liveFunctions g Fs = filter (\<lambda>F. \<not> inInitText (functionAt g F)) Fs"

definition accepted :: "ir \<Rightarrow> callPtr \<Rightarrow> funcPtr \<Rightarrow> bool" where
  "accepted g CB F =
     (\<not> isIntrinsic (functionAt g F) \<and>
      (isVarArg (functionAt g F) \<or>
       (length (paramTypes (functionAt g F)) = length (argTypes (callAt g CB)) \<and>
        isCompatibleType (returnType (functionAt g F)) (cbType (callAt g CB)))) \<and>
      matchParams g CB 0 (paramTypes (functionAt g F)))"

definition targets :: "ir \<Rightarrow> globalContext \<Rightarrow> callPtr \<Rightarrow> funcPtr set" where
  "targets g Ctx CB =
     (case calledFunction (callAt g CB) of
        Some CF \<Rightarrow> {getFuncDef g Ctx CF}
      | None \<Rightarrow> {F \<in> set (AddressTakenFuncs Ctx). accepted g CB F})"

definition callsIn :: "instruction list \<Rightarrow> callPtr set" where
  "callsIn Is = {CB. \<exists>I \<in> set Is. asCallBase I = Some CB}"

definition processedCalls :: "ir \<Rightarrow> instruction list \<Rightarrow> callPtr set" where
  "processedCalls g Is =
     {CB \<in> callsIn Is. \<not> isInlineAsm (callAt g CB) \<and> \<not> calledIntrinsic g CB}"

text \<open>
  The call edges that \<open>forwardSlicingFunctionWithDepth\<close> follows, and the functions
  within \<open>n\<close> call hops of \<open>F\<close> along them.
\<close>

definition calleeEdges :: "ir \<Rightarrow> globalContext \<Rightarrow> (funcPtr \<times> funcPtr) set" where
  "calleeEdges g Ctx =
     {(F, G). \<exists>CB \<in> set (callSitesOf g F). G \<in> set (calleesOf Ctx CB)}"

definition reachableWithin :: "ir \<Rightarrow> globalContext \<Rightarrow> funcPtr \<Rightarrow> nat \<Rightarrow> funcPtr set" where
  "reachableWithin g Ctx F n = {G. \<exists>k. k \<le> n \<and> (F, G) \<in> calleeEdges g Ctx ^^ k}"

text \<open>
  \<open>grows s s'\<close>: each of the five sets of the slicer in state \<open>s\<close> is contained in
  its counterpart in \<open>s'\<close>, and the counter has not decreased.
\<close>

definition grows :: "slicing \<Rightarrow> slicing \<Rightarrow> bool" where
  "grows s s' =
     (set (visitedF s) \<subseteq> set (visitedF s') \<and> set (verboseF s) \<subseteq> set (verboseF s') \<and>
      set (visitedBB s) \<subseteq> set (visitedBB s') \<and> set (fVisitedF s) \<subseteq> set (fVisitedF s') \<and>
      set (verboseBB s) \<subseteq> set (verboseBB s') \<and> slicedFuncCnt s \<le> slicedFuncCnt s')"

text \<open>
  \<open>covered g s\<close>: the blocks of every function of \<open>fVisitedF_\<close> are in
  \<open>verboseBB_\<close>. It holds of a new or cleared slicer and is kept by every slicing
  method. \<open>parentsAgree g\<close>: a block listed in a function has that function as its
  parent, as in every LLVM module.
\<close>

definition covered :: "ir \<Rightarrow> slicing \<Rightarrow> bool" where
  "covered g s =
     (\<forall>F \<in> set (fVisitedF s). set (basicBlocks (functionAt g F)) \<subseteq> set (verboseBB s))"

definition parentsAgree :: "ir \<Rightarrow> bool" where
  "parentsAgree g =
     (\<forall>F BB. BB \<in> set (basicBlocks (functionAt g F)) \<longrightarrow> bbParent (blockAt g BB) = F)"

text \<open>
  The invariant of the loop of \<open>forwardSlicingFunction\<close> on \<open>F\<close>, over its state
  (verboseBB, fVisitedF, visited, toVisit): the two sets have only grown; if the
  slicer was \<open>covered\<close> (\<open>J\<close>), every function of fVisitedF has its blocks in
  verboseBB or in the queue; every block of \<open>F\<close> is visited or queued; visited
  blocks are in verboseBB, and the callees of their calls are in fVisitedF.
\<close>

definition forwardInv ::
  "ir \<Rightarrow> globalContext \<Rightarrow> funcPtr \<Rightarrow> bool \<Rightarrow> bbPtr list \<Rightarrow> funcPtr list
     \<Rightarrow> bbPtr list \<times> funcPtr list \<times> bbPtr list \<times> bbPtr list \<Rightarrow> bool" where
  "forwardInv g Ctx F J vb0 fV0 = (\<lambda>(vb, fV, visited, q).
     set vb0 \<subseteq> set vb \<and> set fV0 \<subseteq> set fV \<and>
     (J \<longrightarrow> (\<forall>f \<in> set fV. set (basicBlocks (functionAt g f)) \<subseteq> set vb \<union> set q)) \<and>
     set (basicBlocks (functionAt g F)) \<subseteq> set visited \<union> set q \<and>
     set visited \<subseteq> set vb \<and>
     (\<forall>b \<in> set visited. \<forall>I \<in> set (instructions (blockAt g b)). \<forall>CB.
        asCallBase I = Some CB \<longrightarrow> set (calleesOf Ctx CB) \<subseteq> set fV))"

section \<open>Concrete inputs\<close>

text \<open>A run given both a target file and a batch config.\<close>

definition optsBoth :: options where
  "optsBoth = \<lparr> TargetName = ''a.c'', SrcRoot = ''/src'', CallGraph = False,
     ProgramSlicing = False, TargetLine = 0, TargetFunc = ''f'',
     MultiTargetPairsConfig = ''pairs.txt'', OutputPath = ''out'' \<rparr>"

text \<open>
  A program of one module. \<open>main\<close> (function 1, block 10) makes an indirect call
  \<open>int r = p(1)\<close> (call 100) and calls \<open>setup\<close>, \<open>ext\<close> and \<open>target\<close> directly
  (calls 101, 102, 103). \<open>vf\<close> (2) is \<open>double vf(int, ...)\<close> and has its address
  taken; \<open>setup\<close> (3) lies in \<open>.init.text\<close>; \<open>ext\<close> (4) is a declaration without a
  body; \<open>target\<close> (5, block 50) calls \<open>main\<close> back (call 104), so the call graph has
  a cycle; \<open>unused\<close> (6, block 60) is called by nobody. Call 103 is located at
  \<open>/src/x/../prog.c:12\<close>. \<open>exOpts\<close> asks for the slice of \<open>target\<close>, \<open>exBatch\<close> is a
  batch file of two pairs. Every call is a \<open>CallInst\<close> without bundles, whose only
  operand after the arguments is the called operand; for the indirect call this is
  a pointer to \<open>i32 (i32)\<close>. \<open>emptyContext\<close> is the registry as constructed,
  \<open>freshContext\<close> the registry after loading (\<open>Funcs\<close> holds the externally linked
  definitions), \<open>exContext\<close> the registry after the call-graph phase,
  \<open>initializedContext\<close> and \<open>sweptContext\<close> the registry before and after the one
  module pass.
\<close>

definition i32 :: llvmType where "i32 = IntegerTy 32"
definition voidTy :: llvmType where "voidTy = MiscTy VoidTyID"
definition doubleTy :: llvmType where "doubleTy = MiscTy DoubleTyID"

definition plainFunction :: "string \<Rightarrow> bbPtr list \<Rightarrow> llvmFunction" where
  "plainFunction name bbs =
     \<lparr> fName = name, getSection = [], returnType = voidTy, paramTypes = [],
       isVarArg = False, isIntrinsic = False, isDbgInfoID = False,
       hasAddressTaken = False, hasExternalLinkage = True, moduleStem = ''prog'',
       basicBlocks = bbs,
       subprogram = Some \<lparr> locFilename = ''prog.c'', locDirectory = ''/src'', locLine = 1 \<rparr> \<rparr>"

definition exFunctionAt :: "funcPtr \<Rightarrow> llvmFunction" where
  "exFunctionAt F =
     (if F = 1 then (plainFunction ''main'' [10])\<lparr>returnType := i32\<rparr>
      else if F = 2 then
        (plainFunction ''vf'' [20])
          \<lparr>returnType := doubleTy, paramTypes := [i32], isVarArg := True,
           hasAddressTaken := True\<rparr>
      else if F = 3 then (plainFunction ''setup'' [30])\<lparr>getSection := ''.init.text''\<rparr>
      else if F = 4 then (plainFunction ''ext'' [])\<lparr>subprogram := None\<rparr>
      else if F = 5 then plainFunction ''target'' [50]
      else if F = 6 then plainFunction ''unused'' [60]
      else plainFunction [] [])"

definition plainCall :: "bbPtr \<Rightarrow> funcPtr option \<Rightarrow> callBase" where
  "plainCall BB CF =
     \<lparr> cbParent = BB, isCallInst = True, calledFunction = CF, isInlineAsm = False,
       cbType = voidTy, argTypes = [],
       laterOperandTypes = [PointerTy (FunctionTy voidTy [] False) 0] \<rparr>"

definition exCallAt :: "callPtr \<Rightarrow> callBase" where
  "exCallAt CB =
     (if CB = 100 then
        (plainCall 10 None)
          \<lparr>cbType := i32, argTypes := [i32],
           laterOperandTypes := [PointerTy (FunctionTy i32 [i32] False) 0]\<rparr>
      else if CB = 101 then plainCall 10 (Some 3)
      else if CB = 102 then plainCall 10 (Some 4)
      else if CB = 103 then plainCall 10 (Some 5)
      else
        (plainCall 50 (Some 1))
          \<lparr>cbType := i32, laterOperandTypes := [PointerTy (FunctionTy i32 [] False) 0]\<rparr>)"

definition callInst :: "callPtr \<Rightarrow> instruction" where
  "callInst CB = \<lparr> debugLoc = None, asCallBase = Some CB \<rparr>"

definition exBlockAt :: "bbPtr \<Rightarrow> basicBlock" where
  "exBlockAt BB =
     (if BB = 10 then
        \<lparr> bbParent = 1,
          instructions =
            [callInst 100, callInst 101, callInst 102,
             (callInst 103)
               \<lparr>debugLoc := Some \<lparr> locFilename = ''x/../prog.c'', locDirectory = ''/src'',
                                     locLine = 12 \<rparr>\<rparr>],
          successors = [], predecessors = [] \<rparr>
      else
        \<lparr> bbParent = (if BB = 20 then 2 else if BB = 30 then 3 else if BB = 50 then 5 else 6),
          instructions = (if BB = 50 then [callInst 104] else []),
          successors = [], predecessors = [] \<rparr>)"

definition exIR :: ir where
  "exIR = \<lparr> functionAt = exFunctionAt, blockAt = exBlockAt, callAt = exCallAt,
            pastOperands = (\<lambda>CB k. voidTy) \<rparr>"

definition exModules :: "llvmModule list" where
  "exModules = [\<lparr> moduleName = ''prog.bc'', moduleFunctions = [1, 2, 3, 4, 5, 6] \<rparr>]"

definition emptyContext :: globalContext where
  "emptyContext =
     \<lparr> Funcs = Map.empty, AddressTakenFuncs = [], Callees = Map.empty, Callers = [],
       IndirectCallInsts = [] \<rparr>"

definition freshContext :: globalContext where
  "freshContext =
     \<lparr> Funcs = [''main'' \<mapsto> 1, ''vf'' \<mapsto> 2, ''setup'' \<mapsto> 3, ''target'' \<mapsto> 5,
                ''unused'' \<mapsto> 6],
       AddressTakenFuncs = [], Callees = Map.empty, Callers = [], IndirectCallInsts = [] \<rparr>"

definition exContext :: globalContext where
  "exContext =
     \<lparr> Funcs = [''main'' \<mapsto> 1, ''vf'' \<mapsto> 2, ''setup'' \<mapsto> 3, ''target'' \<mapsto> 5,
                ''unused'' \<mapsto> 6],
       AddressTakenFuncs = [2],
       Callees = [100 \<mapsto> [2], 101 \<mapsto> [3], 102 \<mapsto> [4], 103 \<mapsto> [5], 104 \<mapsto> [1]],
       Callers = [(2, [100]), (3, [101]), (4, [102]), (5, [103]), (1, [104])],
       IndirectCallInsts = [100] \<rparr>"

definition initializedContext :: globalContext where
  "initializedContext = freshContext\<lparr>AddressTakenFuncs := [2]\<rparr>"

definition sweptContext :: globalContext where
  "sweptContext =
     initializedContext
       \<lparr>Callees := [100 \<mapsto> [2], 101 \<mapsto> [3], 102 \<mapsto> [4], 103 \<mapsto> [5], 104 \<mapsto> [1]],
        IndirectCallInsts := [100]\<rparr>"

text \<open>
  A second program, \<open>op\<close>, of one module: \<open>main\<close> (function 1, block 10) makes the
  indirect call \<open>p()\<close> without arguments (call 100), whose only operand is the
  called operand, a pointer to \<open>void ()\<close>; the declaration
  \<open>int printf(char *, ...)\<close> (function 2) has its address taken. \<open>opContext\<close> is the
  registry after loading and the call-graph phase.
\<close>

definition opFunctionAt :: "funcPtr \<Rightarrow> llvmFunction" where
  "opFunctionAt F =
     (if F = 1 then plainFunction ''main'' [10]
      else if F = 2 then
        (plainFunction ''printf'' [])
          \<lparr>returnType := i32, paramTypes := [PointerTy (IntegerTy 8) 0], isVarArg := True,
           hasAddressTaken := True, subprogram := None\<rparr>
      else plainFunction [] [])"

definition opBlockAt :: "bbPtr \<Rightarrow> basicBlock" where
  "opBlockAt BB =
     \<lparr> bbParent = 1, instructions = (if BB = 10 then [callInst 100] else []),
       successors = [], predecessors = [] \<rparr>"

definition opIR :: ir where
  "opIR = \<lparr> functionAt = opFunctionAt, blockAt = opBlockAt, callAt = (\<lambda>CB. plainCall 10 None),
            pastOperands = (\<lambda>CB k. voidTy) \<rparr>"

definition opModules :: "llvmModule list" where
  "opModules = [\<lparr> moduleName = ''op.bc'', moduleFunctions = [1, 2] \<rparr>]"

definition opContext :: globalContext where
  "opContext =
     \<lparr> Funcs = [''main'' \<mapsto> 1], AddressTakenFuncs = [2], Callees = [100 \<mapsto> [2]],
       Callers = [(2, [100])], IndirectCallInsts = [100] \<rparr>"

definition exOpts :: options where
  "exOpts = \<lparr> TargetName = ''prog.c'', SrcRoot = ''/src'', CallGraph = True,
     ProgramSlicing = True, TargetLine = 0, TargetFunc = ''target'',
     MultiTargetPairsConfig = [], OutputPath = ''out'' \<rparr>"

definition exBatch :: "string list" where
  "exBatch = [''prog.c target'', ''prog.c vf'']"

definition exFuel :: nat where
  "exFuel = Suc (Suc (Suc (Suc (Suc 0))))"

definition exSlicing :: slicing where
  "exSlicing = cacheAllLLVMObjects exIR exModules (newSlicing exContext)"

text \<open>The files written for the slice of \<open>target\<close> in the example program.\<close>

definition exFiles :: outputFiles where
  "exFiles =
     \<lparr> outputFile = [''block:/src/prog.c:12:100\<newline>''],
       outputFileVerbose = [''block:/src/prog.c:12:100\<newline>''],
       outputFileFunc = [''vf\<newline>'', ''target\<newline>'', ''setup\<newline>'', ''ext\<newline>'', ''main\<newline>''],
       outputFileFuncVerbose = [''vf\<newline>'', ''setup\<newline>'', ''target\<newline>'', ''main\<newline>''],
       outputFileFuncBlacklist = [''unused\<newline>''] \<rparr>"

section \<open>Results\<close>

subsection \<open>Type compatibility\<close>

lemma allCompatible_refl:
  "(\<And>x. x \<in> set xs \<Longrightarrow> isCompatibleType x x) \<Longrightarrow> allCompatible xs xs"
  by (induction xs) auto

lemma isCompatibleType_refl: "isCompatibleType T T"
  by (induction T) (auto simp: allCompatible_refl)

text \<open>
  C3 (code defect). For two array types the source returns
  \<open>isCompatibleType(ElT1, ElT1)\<close>: the element type of the first array against
  itself, which always holds. The arrays \<open>[4 x i32]\<close> and \<open>[4 x float]\<close> are
  therefore found compatible although \<open>i32\<close> and \<open>float\<close> are not.
\<close>

theorem C3_array_branch_ignores_second_element_type:
  "isCompatibleType (ArrayTy (IntegerTy 32) 4) (ArrayTy (MiscTy FloatTyID) 4) = True \<and>
   isCompatibleType (IntegerTy 32) (MiscTy FloatTyID) = False"
  by simp

lemma isCompatibleType_arrays_always:
  "isCompatibleType (ArrayTy ElT1 n1) (ArrayTy ElT2 n2)"
  by (simp add: isCompatibleType_refl)

subsection \<open>Path normalizer\<close>

lemmas normalizePath_defs =
  normalizePath_def pushComponent_def joinComponents_def dropTrailing_def

lemma normalizePath_example_dots: "normalizePath ''/a/./b/../c'' = ''/a/c''"
  by (simp add: normalizePath_defs)

lemma normalizePath_example_double_slash: "normalizePath ''a//b'' = ''a/b''"
  by (simp add: normalizePath_defs)

text \<open>
  C8 (code defect). The source first prepends \<open>/\<close> for an absolute path
  ("Preserve leading slash for absolute paths") and then removes the last character
  as the trailing slash. When no component survives, the character removed is that
  leading slash: the absolute input \<open>/a/..\<close> (and likewise \<open>/\<close>) is normalized to
  the empty string, which does not begin with \<open>/\<close>.
\<close>

theorem C8_root_loses_leading_slash:
  "normalizePath ''/a/..'' = [] \<and> normalizePath ''/'' = [] \<and> hd ''/a/..'' = CHR ''/''"
  by (simp add: normalizePath_defs)

text \<open>
  The rest of the claim holds of the source: the result is made of the kept
  components joined by \<open>/\<close>, so normalizing is idempotent and no result ends with
  \<open>/\<close>; the result begins with \<open>/\<close> exactly when the input does and a component is
  kept.
\<close>

lemma getlineAll_no_slash:
  "CHR ''/'' \<notin> set cur \<Longrightarrow> \<forall>c \<in> set (getlineAll cur s). CHR ''/'' \<notin> set c"
proof (induction s arbitrary: cur)
  case Nil
  then show ?case by simp
next
  case (Cons a s)
  show ?case
  proof (cases "a = CHR ''/''")
    case True
    with Cons.prems Cons.IH [of "[]"] show ?thesis by simp
  next
    case False
    with Cons.prems have "CHR ''/'' \<notin> set (cur @ [a])" by simp
    from Cons.IH [OF this] False show ?thesis by simp
  qed
qed

lemma pushComponent_good:
  assumes "\<forall>c \<in> set acc. goodComponent c" and "CHR ''/'' \<notin> set x"
  shows "\<forall>c \<in> set (pushComponent acc x). goodComponent c"
proof (cases "x = ''..''")
  case True
  with assms(1) show ?thesis
    by (auto simp: pushComponent_def dest: in_set_butlastD)
next
  case False
  with assms show ?thesis
    by (simp add: pushComponent_def goodComponent_def)
qed

lemma foldl_pushComponent_good:
  "\<forall>c \<in> set acc. goodComponent c \<Longrightarrow> \<forall>x \<in> set xs. CHR ''/'' \<notin> set x \<Longrightarrow>
     \<forall>c \<in> set (foldl pushComponent acc xs). goodComponent c"
proof (induction xs arbitrary: acc)
  case Nil
  then show ?case by simp
next
  case (Cons x xs)
  from Cons.prems have 1: "\<forall>c \<in> set (pushComponent acc x). goodComponent c"
    by (intro pushComponent_good) simp_all
  from Cons.prems have 2: "\<forall>x \<in> set xs. CHR ''/'' \<notin> set x" by simp
  from Cons.IH [OF 1 2] show ?case by simp
qed

lemma componentsOf_good: "\<forall>c \<in> set (componentsOf p). goodComponent c"
  unfolding componentsOf_def
  by (rule foldl_pushComponent_good) (use getlineAll_no_slash [of "[]" p] in simp_all)


lemma dropTrailing_butlast: "dropTrailing s = butlast s"
  by (simp add: dropTrailing_def butlast_conv_take)

lemma normalizePath_components:
  "normalizePath p =
     butlast ((if p \<noteq> [] \<and> hd p = CHR ''/'' then ''/'' else []) @ joinComponents (componentsOf p))"
  by (simp add: normalizePath_def componentsOf_def dropTrailing_butlast Let_def)

lemma joinComponents_Nil [simp]: "joinComponents [] = []"
  by (simp add: joinComponents_def)

lemma joinComponents_Cons [simp]:
  "joinComponents (c # cs) = c @ CHR ''/'' # joinComponents cs"
  by (simp add: joinComponents_def)

lemma joinComponents_Nil_iff [simp]: "joinComponents cs = [] \<longleftrightarrow> cs = []"
  by (cases cs) simp_all

lemma getlineAll_plain:
  "CHR ''/'' \<notin> set c \<Longrightarrow> getlineAll cur c = (if cur @ c = [] then [] else [cur @ c])"
  by (induction c arbitrary: cur) auto

lemma getlineAll_component:
  "CHR ''/'' \<notin> set c \<Longrightarrow> getlineAll cur (c @ CHR ''/'' # s) = (cur @ c) # getlineAll [] s"
  by (induction c arbitrary: cur) auto

lemma butlast_joinComponents_Cons:
  "butlast (joinComponents (c # cs)) =
     (if cs = [] then c else c @ CHR ''/'' # butlast (joinComponents cs))"
  by (simp add: butlast_append)

lemma getlineAll_join:
  "\<forall>c \<in> set cs. goodComponent c \<Longrightarrow> getlineAll [] (butlast (joinComponents cs)) = cs"
proof (induction cs)
  case Nil
  show ?case by simp
next
  case (Cons c cs)
  then have c: "c \<noteq> []" "CHR ''/'' \<notin> set c" and r: "\<forall>c \<in> set cs. goodComponent c"
    by (simp_all add: goodComponent_def)
  show ?case
  proof (cases "cs = []")
    case True
    with c show ?thesis
      unfolding butlast_joinComponents_Cons by (simp add: getlineAll_plain)
  next
    case False
    with c Cons.IH [OF r] show ?thesis
      unfolding butlast_joinComponents_Cons by (simp add: getlineAll_component)
  qed
qed

lemma foldl_pushComponent_goods:
  "\<forall>c \<in> set cs. goodComponent c \<Longrightarrow> foldl pushComponent acc cs = acc @ cs"
  by (induction cs arbitrary: acc) (simp_all add: pushComponent_def goodComponent_def)


lemma componentsOf_join:
  assumes "\<forall>c \<in> set cs. goodComponent c" and pre: "pre = [] \<or> pre = ''/''"
  shows "componentsOf (butlast (pre @ joinComponents cs)) = cs"
proof (cases "cs = []")
  case True
  with pre show ?thesis by (auto simp: componentsOf_def pushComponent_def)
next
  case False
  then have b: "butlast (pre @ joinComponents cs) = pre @ butlast (joinComponents cs)"
    by (simp add: butlast_append)
  from pre show ?thesis
  proof
    assume "pre = []"
    with assms show ?thesis
      unfolding b componentsOf_def
      by (simp add: getlineAll_join foldl_pushComponent_goods)
  next
    assume "pre = ''/''"
    with assms show ?thesis
      unfolding b componentsOf_def
      by (simp add: getlineAll_join foldl_pushComponent_goods pushComponent_def)
  qed
qed

lemma hd_joinComponents:
  assumes "\<forall>c \<in> set cs. goodComponent c" and "cs \<noteq> []"
  shows "butlast (joinComponents cs) \<noteq> [] \<and> hd (butlast (joinComponents cs)) \<noteq> CHR ''/''"
proof (cases cs)
  case Nil
  with assms(2) show ?thesis by simp
next
  case (Cons c ds)
  with assms(1) have c: "c \<noteq> []" "CHR ''/'' \<notin> set c" by (simp_all add: goodComponent_def)
  then have "hd c \<in> set c" by simp
  with c have h: "hd c \<noteq> CHR ''/''" by metis
  from c h show ?thesis
    unfolding Cons butlast_joinComponents_Cons by (simp add: hd_append)
qed

lemma normalizePath_shape:
  "normalizePath p =
     (if componentsOf p = [] then []
      else (if p \<noteq> [] \<and> hd p = CHR ''/'' then ''/'' else [])
           @ butlast (joinComponents (componentsOf p)))"
  by (simp add: normalizePath_components butlast_append)

lemma normalizePath_idempotent: "normalizePath (normalizePath p) = normalizePath p"
proof (cases "componentsOf p = []")
  case True
  then have "normalizePath p = []" by (simp add: normalizePath_shape)
  moreover have "normalizePath [] = []"
    by (simp add: normalizePath_def pushComponent_def joinComponents_def dropTrailing_def)
  ultimately show ?thesis by simp
next
  case False
  let ?pre = "if p \<noteq> [] \<and> hd p = CHR ''/'' then ''/'' else []"
  let ?r = "normalizePath p"
  note g = componentsOf_good [of p]
  have r: "?r = butlast (?pre @ joinComponents (componentsOf p))"
    by (rule normalizePath_components)
  have c: "componentsOf ?r = componentsOf p"
    unfolding r by (rule componentsOf_join [OF g]) simp
  from hd_joinComponents [OF g False]
  have h: "(?r \<noteq> [] \<and> hd ?r = CHR ''/'') = (p \<noteq> [] \<and> hd p = CHR ''/'')"
    using False by (auto simp: normalizePath_shape)
  show ?thesis
    unfolding normalizePath_shape [of ?r] c
    using False h by (simp add: normalizePath_shape)
qed

lemma normalizePath_no_trailing_slash:
  "normalizePath p = [] \<or> last (normalizePath p) \<noteq> CHR ''/''"
proof (cases "componentsOf p = []")
  case True
  then show ?thesis by (simp add: normalizePath_shape)
next
  case False
  then obtain cs c where cs: "componentsOf p = cs @ [c]"
    by (cases "componentsOf p" rule: rev_cases) auto
  with componentsOf_good [of p] have c: "c \<noteq> []" "CHR ''/'' \<notin> set c"
    by (auto simp: goodComponent_def)
  have j: "joinComponents (cs @ [c]) = joinComponents cs @ c @ ''/''"
    by (simp add: joinComponents_def)
  have "butlast (joinComponents (componentsOf p)) = joinComponents cs @ c"
    unfolding cs j by (simp add: butlast_append)
  with c False have "last (normalizePath p) = last c" "normalizePath p \<noteq> []"
    by (simp_all add: normalizePath_shape)
  with c show ?thesis by (metis last_in_set)
qed

lemma normalizePath_leading_slash:
  "(normalizePath p \<noteq> [] \<and> hd (normalizePath p) = CHR ''/'') \<longleftrightarrow>
     (p \<noteq> [] \<and> hd p = CHR ''/'' \<and> componentsOf p \<noteq> [])"
proof (cases "componentsOf p = []")
  case True
  then show ?thesis by (simp add: normalizePath_shape)
next
  case False
  from hd_joinComponents [OF componentsOf_good False] False show ?thesis
    by (auto simp: normalizePath_shape)
qed

subsection \<open>Argument validation\<close>

text \<open>
  C9 (counterexample). With both a target file and a batch config given (and a
  function name and a source root), none of the three checks fires: the run is not
  rejected.
\<close>

theorem C9_both_file_and_batch_accepted:
  "TargetName optsBoth \<noteq> [] \<and> MultiTargetPairsConfig optsBoth \<noteq> [] \<and>
   validateArguments optsBoth = None"
  by (simp add: optsBoth_def validateArguments_def)

text \<open>
  C9 (amended). The validation rejects, with exit code \<open>-1\<close>, exactly the runs
  that lack both a target file and a batch config, or lack all of a target line, a
  function name and a batch config, or lack a source root. Each check is an
  inclusive "at least one"; nothing is rejected for supplying several.
\<close>

theorem C9_validation_at_least_one:
  "validateArguments opts =
     (if (TargetName opts = [] \<and> MultiTargetPairsConfig opts = []) \<or>
         (TargetLine opts = 0 \<and> TargetFunc opts = [] \<and> MultiTargetPairsConfig opts = []) \<or>
         SrcRoot opts = []
      then Some (- 1) else None)"
  by (simp add: validateArguments_def)

theorem C9_validation_at_least_one_witness:
  "validateArguments optsBoth = None \<and>
   validateArguments (optsBoth\<lparr>SrcRoot := []\<rparr>) = Some (- 1) \<and>
   validateArguments (optsBoth\<lparr>TargetName := [], MultiTargetPairsConfig := []\<rparr>) = Some (- 1)"
  using C9_validation_at_least_one [of optsBoth]
    C9_validation_at_least_one [of "optsBoth\<lparr>SrcRoot := []\<rparr>"]
    C9_validation_at_least_one [of "optsBoth\<lparr>TargetName := [], MultiTargetPairsConfig := []\<rparr>"]
  by (simp add: optsBoth_def)

subsection \<open>Call-graph construction\<close>

lemma runOnInstructions_Changed:
  "fst (runOnInstructions g Is Changed Ctx) = Changed"
  by (induction Is arbitrary: Ctx) (auto split: option.splits prod.splits simp: Let_def)

lemma runOnFunction_False:
  "fst (runOnFunction g F Ctx) = False"
  by (simp add: runOnFunction_def runOnInstructions_Changed)

lemma runOnFunctions_Changed:
  "fst (runOnFunctions g Fs Changed Ctx) = Changed"
proof (induction Fs arbitrary: Ctx Changed)
  case Nil
  show ?case by simp
next
  case (Cons F Fs)
  obtain c C where r: "runOnFunction g F Ctx = (c, C)" by (cases "runOnFunction g F Ctx")
  with runOnFunction_False [of g F Ctx] have "c = False" by simp
  with r Cons show ?case by simp
qed

lemma doModulePass_once:
  "doModulePass g M Ctx = Some (False, snd (runOnFunctions g (moduleFunctions M) False Ctx))"
proof -
  obtain c C where r: "runOnFunctions g (moduleFunctions M) False Ctx = (c, C)"
    by (cases "runOnFunctions g (moduleFunctions M) False Ctx")
  with runOnFunctions_Changed [of g "moduleFunctions M" False Ctx] have c: "c = False" by simp
  have "doModulePassLoop g M False False C = Some (False, C)"
    by (subst doModulePassLoop.simps) simp
  then show ?thesis
    unfolding doModulePass_def by (subst doModulePassLoop.simps) (simp add: r c)
qed

lemma sweepModules_False:
  assumes "\<And>M Ctx. fst (pass M Ctx) = False"
  shows "fst (sweepModules pass Ms again Ctx) = again"
proof (induction Ms arbitrary: again Ctx)
  case Nil
  show ?case by simp
next
  case (Cons M Ms)
  obtain r C where p: "pass M Ctx = (r, C)" by (cases "pass M Ctx")
  with assms [of M Ctx] have "r = False" by simp
  with p Cons show ?case by simp
qed

lemma whileAgain_once:
  assumes "\<And>M Ctx. fst (pass M Ctx) = False"
  shows "whileAgain pass Ms True Ctx = Some (snd (sweepModules pass Ms False Ctx))"
proof -
  obtain a C where s: "sweepModules pass Ms False Ctx = (a, C)"
    by (cases "sweepModules pass Ms False Ctx")
  have a: "a = False"
    using sweepModules_False [of pass Ms False Ctx] assms s by simp
  have "whileAgain pass Ms False C = Some C"
    by (subst whileAgain.simps) simp
  then show ?thesis
    by (subst whileAgain.simps) (simp add: s a)
qed

lemma collectAddressTaken_append:
  "collectAddressTaken g (Fs @ Gs) Ctx = collectAddressTaken g Gs (collectAddressTaken g Fs Ctx)"
  by (induction Fs arbitrary: Ctx) auto

lemma sweep_doInitialization:
  "snd (sweepModules (doInitialization g) Ms again Ctx) =
     collectAddressTaken g (allFunctions Ms) Ctx"
  by (induction Ms arbitrary: again Ctx)
     (auto simp: allFunctions_def doInitialization_def collectAddressTaken_append)

lemma finalizeInstructions_append:
  "finalizeInstructions g (Is @ Js) Ctx =
     finalizeInstructions g Js (finalizeInstructions g Is Ctx)"
  by (induction Is arbitrary: Ctx) (auto split: option.splits simp: Let_def)

lemma allInstructions_simps [simp]:
  "allInstructions g [] = []"
  "allInstructions g (F # Fs) = instructionsOf g F @ allInstructions g Fs"
  by (simp_all add: allInstructions_def)

lemma foldl_finalize:
  "foldl (\<lambda>Ctx F. finalizeInstructions g (instructionsOf g F) Ctx) Ctx Fs =
     finalizeInstructions g (allInstructions g Fs) Ctx"
  by (induction Fs arbitrary: Ctx) (auto simp: finalizeInstructions_append)

lemma allInstructions_append:
  "allInstructions g (Fs @ Gs) = allInstructions g Fs @ allInstructions g Gs"
  by (simp add: allInstructions_def)

lemma sweep_doFinalization:
  "snd (sweepModules (doFinalization g) Ms again Ctx) =
     finalizeInstructions g (allInstructions g (allFunctions Ms)) Ctx"
  by (induction Ms arbitrary: again Ctx)
     (auto simp: allFunctions_def doFinalization_def foldl_finalize
        allInstructions_append finalizeInstructions_append)

lemma runOnInstructions_append:
  "runOnInstructions g (Is @ Js) Changed Ctx =
     runOnInstructions g Js Changed (snd (runOnInstructions g Is Changed Ctx))"
  by (induction Is arbitrary: Ctx) (auto split: option.splits prod.splits simp: Let_def)

lemma runOnFunctions_eq:
  "runOnFunctions g Fs False Ctx =
     runOnInstructions g (allInstructions g (liveFunctions g Fs)) False Ctx"
proof (induction Fs arbitrary: Ctx)
  case Nil
  show ?case by (simp add: liveFunctions_def)
next
  case (Cons F Fs)
  show ?case
  proof (cases "inInitText (functionAt g F)")
    case True
    then show ?thesis
      using Cons by (simp add: runOnFunction_def inInitText_def liveFunctions_def)
  next
    case False
    then have l: "liveFunctions g (F # Fs) = F # liveFunctions g Fs"
      by (simp add: liveFunctions_def)
    from False have r: "runOnFunction g F Ctx = runOnInstructions g (instructionsOf g F) False Ctx"
      by (auto simp: runOnFunction_def inInitText_def)
    obtain c C where p: "runOnInstructions g (instructionsOf g F) False Ctx = (c, C)"
      by (cases "runOnInstructions g (instructionsOf g F) False Ctx")
    with runOnInstructions_Changed [of g "instructionsOf g F" False Ctx] have "c = False"
      by simp
    with p show ?thesis
      unfolding l using Cons by (simp add: r runOnInstructions_append)
  qed
qed

lemma runOnFunctions_append:
  "runOnFunctions g (Fs @ Gs) Changed Ctx =
     runOnFunctions g Gs Changed (snd (runOnFunctions g Fs Changed Ctx))"
proof (induction Fs arbitrary: Ctx Changed)
  case Nil
  show ?case by simp
next
  case (Cons F Fs)
  obtain c C where r: "runOnFunction g F Ctx = (c, C)" by (cases "runOnFunction g F Ctx")
  with runOnFunction_False [of g F Ctx] have "c = False" by simp
  with r Cons show ?case by simp
qed

lemma allFunctions_simps [simp]:
  "allFunctions [] = []"
  "allFunctions (M # Ms) = moduleFunctions M @ allFunctions Ms"
  by (simp_all add: allFunctions_def)

lemma sweepModulePasses_eq:
  "sweepModulePasses g Ms changed Ctx =
     Some (changed, snd (runOnFunctions g (allFunctions Ms) False Ctx))"
proof (induction Ms arbitrary: changed Ctx)
  case Nil
  show ?case by simp
next
  case (Cons M Ms)
  show ?case
    by (simp add: doModulePass_once runOnFunctions_append Cons)
qed

lemma whileChanged_once:
  "whileChanged g Ms (Suc 0) Ctx = Some (snd (runOnFunctions g (allFunctions Ms) False Ctx))"
proof -
  have stop: "\<And>C. whileChanged g Ms 0 C = Some C"
    by (subst whileChanged.simps) simp
  show ?thesis
    by (subst whileChanged.simps) (simp add: sweepModulePasses_eq stop)
qed

lemma initialization_once:
  "whileAgain (doInitialization g) Ms True Ctx =
     Some (collectAddressTaken g (allFunctions Ms) Ctx)"
proof -
  have "\<And>M C. fst (doInitialization g M C) = False"
    by (simp add: doInitialization_def)
  then show ?thesis
    by (simp add: whileAgain_once sweep_doInitialization)
qed

lemma finalization_once:
  "whileAgain (doFinalization g) Ms True Ctx =
     Some (finalizeInstructions g (allInstructions g (allFunctions Ms)) Ctx)"
proof -
  have "\<And>M C. fst (doFinalization g M C) = False"
    by (simp add: doFinalization_def)
  then show ?thesis
    by (simp add: whileAgain_once sweep_doFinalization)
qed

text \<open>
  The call-graph phase always completes: each of its three loops ends after one
  round, and the registry it leaves is that of one initialization sweep, one sweep
  of \<open>runOnFunction\<close> over the functions outside \<open>.init.text\<close> and one finalization
  sweep.
\<close>

lemma run_eq:
  "run g Ms Ctx =
     Some (finalizeInstructions g (allInstructions g (allFunctions Ms))
             (snd (runOnInstructions g (allInstructions g (liveFunctions g (allFunctions Ms)))
                     False (collectAddressTaken g (allFunctions Ms) Ctx))))"
  by (simp add: run_def initialization_once finalization_once whileChanged_once runOnFunctions_eq)

lemma run_completes: "\<exists>Ctx'. run g Ms Ctx = Some Ctx'"
  by (simp add: run_eq)


lemma operandTypeAt_later:
  "length (argTypes (callAt g CB)) \<le> i \<Longrightarrow>
   i < length (argTypes (callAt g CB)) + length (laterOperandTypes (callAt g CB)) \<Longrightarrow>
     operandTypeAt g CB i = laterOperandTypes (callAt g CB) ! (i - length (argTypes (callAt g CB)))"
  by (simp add: operandTypeAt_def Let_def nth_append)



lemma matchCandidate_set:
  "set (matchCandidate g CB FS F) = set FS \<union> (if accepted g CB F then {F} else {})"
  by (auto simp: matchCandidate_def accepted_def Let_def)

lemma matchCandidates_set:
  "set (foldl (matchCandidate g CB) FS Fs) = set FS \<union> {F \<in> set Fs. accepted g CB F}"
proof (induction Fs arbitrary: FS)
  case Nil
  show ?case by simp
next
  case (Cons F Fs)
  show ?case
    unfolding foldl_Cons Cons.IH matchCandidate_set by auto
qed

lemma targets_cong:
  "Funcs Ctx' = Funcs Ctx \<Longrightarrow> AddressTakenFuncs Ctx' = AddressTakenFuncs Ctx \<Longrightarrow>
     targets g Ctx' CB = targets g Ctx CB"
  by (simp add: targets_def getFuncDef_def split: option.splits)

lemma findCallees_spec:
  assumes "findCallees g Ctx CB FS = (found, FS', Ctx')"
  shows "set FS' = set FS \<union> targets g Ctx CB"
    and "AddressTakenFuncs Ctx' = AddressTakenFuncs Ctx"
    and "Funcs Ctx' = Funcs Ctx"
    and "Callers Ctx' = Callers Ctx"
    and "Callees Ctx' = Callees Ctx"
  using assms
  by (auto simp: findCallees_def findCalleesByType_def targets_def Let_def matchCandidates_set
      split: option.splits)

lemma callsIn_simps [simp]:
  "callsIn [] = {}"
  "callsIn (I # Is) = (case asCallBase I of None \<Rightarrow> {} | Some CB \<Rightarrow> {CB}) \<union> callsIn Is"
  "callsIn (Is @ Js) = callsIn Is \<union> callsIn Js"
  by (auto simp: callsIn_def split: option.splits)

lemma runOnInstructions_spec:
  "runOnInstructions g Is Changed Ctx = (c, Ctx') \<Longrightarrow>
     AddressTakenFuncs Ctx' = AddressTakenFuncs Ctx \<and> Funcs Ctx' = Funcs Ctx \<and>
     Callers Ctx' = Callers Ctx \<and>
     (\<forall>CB. set (calleesOf Ctx' CB) =
        set (calleesOf Ctx CB) \<union> (if CB \<in> processedCalls g Is then targets g Ctx CB else {}))"
proof (induction Is arbitrary: Ctx)
  case Nil
  then show ?case by (simp add: processedCalls_def)
next
  case (Cons I Is)
  show ?case
  proof (cases "asCallBase I")
    case None
    with Cons.prems have "runOnInstructions g Is Changed Ctx = (c, Ctx')" by simp
    from Cons.IH [OF this] None show ?thesis by (simp add: processedCalls_def)
  next
    case (Some CB0)
    show ?thesis
    proof (cases "isInlineAsm (callAt g CB0) \<or> calledIntrinsic g CB0")
      case True
      with Some Cons.prems have "runOnInstructions g Is Changed Ctx = (c, Ctx')"
        by auto
      from Cons.IH [OF this] Some True show ?thesis
        by (auto simp: processedCalls_def)
    next
      case False
      obtain found FS Ctx1 where
        fc: "findCallees g Ctx CB0 (calleesOf Ctx CB0) = (found, FS, Ctx1)"
        by (cases "findCallees g Ctx CB0 (calleesOf Ctx CB0)")
      with False Some Cons.prems have
        rest: "runOnInstructions g Is Changed (Ctx1\<lparr>Callees := (Callees Ctx1)(CB0 \<mapsto> FS)\<rparr>)
                 = (c, Ctx')"
        by (auto simp: Let_def split: if_splits)
      let ?C2 = "Ctx1\<lparr>Callees := (Callees Ctx1)(CB0 \<mapsto> FS)\<rparr>"
      note f = findCallees_spec [OF fc]
      have t: "\<And>CB. targets g ?C2 CB = targets g Ctx CB"
        by (rule targets_cong) (simp_all add: f)
      have c2: "\<And>CB. calleesOf ?C2 CB = (if CB = CB0 then FS else calleesOf Ctx CB)"
        by (simp add: calleesOf_def f)
      have p: "processedCalls g (I # Is) = insert CB0 (processedCalls g Is)"
        using Some False by (auto simp: processedCalls_def)
      from Cons.IH [OF rest] show ?thesis
        unfolding t c2 p using f(1) by (auto simp: f)
    qed
  qed
qed

lemma callersOf_addCaller:
  "callersOf (addCaller CB Ctx CF) F =
     (if F = CF then List.insert CB (callersOf Ctx CF) else callersOf Ctx F)"
  by (simp add: callersOf_def addCaller_def update_conv')

lemma addCaller_fields [simp]:
  "Callees (addCaller CB Ctx CF) = Callees Ctx"
  "AddressTakenFuncs (addCaller CB Ctx CF) = AddressTakenFuncs Ctx"
  "Funcs (addCaller CB Ctx CF) = Funcs Ctx"
  by (simp_all add: addCaller_def)

lemma foldl_addCaller:
  "Callees (foldl (addCaller CB) Ctx FS) = Callees Ctx \<and>
   AddressTakenFuncs (foldl (addCaller CB) Ctx FS) = AddressTakenFuncs Ctx \<and>
   (\<forall>F. set (callersOf (foldl (addCaller CB) Ctx FS) F) =
      set (callersOf Ctx F) \<union> (if F \<in> set FS then {CB} else {}))"
  by (induction FS arbitrary: Ctx) (auto simp: callersOf_addCaller)

lemma foldl_addCaller_Funcs [simp]:
  "Funcs (foldl (addCaller CB) Ctx FS) = Funcs Ctx"
  by (induction FS arbitrary: Ctx) auto

lemma finalizeInstructions_Funcs [simp]:
  "Funcs (finalizeInstructions g Is Ctx) = Funcs Ctx"
  by (induction Is arbitrary: Ctx) (auto split: option.splits simp: Let_def)

lemma calleesOf_touch:
  "calleesOf (Ctx\<lparr>Callees := (Callees Ctx)(CB \<mapsto> calleesOf Ctx CB)\<rparr>) CB' = calleesOf Ctx CB'"
  by (simp add: calleesOf_def)

lemma finalizeInstructions_spec:
  "(\<forall>CB. calleesOf (finalizeInstructions g Is Ctx) CB = calleesOf Ctx CB) \<and>
   AddressTakenFuncs (finalizeInstructions g Is Ctx) = AddressTakenFuncs Ctx \<and>
   (\<forall>F. set (callersOf (finalizeInstructions g Is Ctx) F) =
      set (callersOf Ctx F) \<union>
      {CB \<in> callsIn Is. \<not> isaDbgInfoIntrinsic g CB \<and> F \<in> set (calleesOf Ctx CB)})"
proof (induction Is arbitrary: Ctx)
  case Nil
  show ?case by simp
next
  case (Cons I Is)
  show ?case
  proof (cases "asCallBase I")
    case None
    with Cons [of Ctx] show ?thesis by simp
  next
    case (Some CB0)
    show ?thesis
    proof (cases "isaDbgInfoIntrinsic g CB0")
      case True
      with Some Cons [of Ctx] show ?thesis by auto
    next
      case False
      let ?C1 = "Ctx\<lparr>Callees := (Callees Ctx)(CB0 \<mapsto> calleesOf Ctx CB0)\<rparr>"
      let ?C2 = "foldl (addCaller CB0) ?C1 (calleesOf Ctx CB0)"
      have e: "finalizeInstructions g (I # Is) Ctx = finalizeInstructions g Is ?C2"
        using Some False by (simp add: Let_def)
      have c1: "\<And>F. callersOf ?C1 F = callersOf Ctx F" by (simp add: callersOf_def)
      have a1: "AddressTakenFuncs ?C1 = AddressTakenFuncs Ctx" by simp
      note fa = foldl_addCaller [of CB0 ?C1 "calleesOf Ctx CB0"]
      have k: "\<And>CB. calleesOf ?C2 CB = calleesOf Ctx CB"
        using fa calleesOf_touch [of Ctx CB0] by (simp add: calleesOf_def)
      have r: "\<And>F. set (callersOf ?C2 F) =
                 set (callersOf Ctx F) \<union> (if F \<in> set (calleesOf Ctx CB0) then {CB0} else {})"
        using fa c1 by simp
      have a2: "AddressTakenFuncs ?C2 = AddressTakenFuncs Ctx" using fa a1 by simp
      show ?thesis
        unfolding e using Cons [of ?C2] Some False
        by (auto simp: k r a2)
    qed
  qed
qed

lemmas ex_defs =
  exIR_def exModules_def freshContext_def exFunctionAt_def exCallAt_def exBlockAt_def
  plainFunction_def plainCall_def callInst_def i32_def voidTy_def doubleTy_def
  instructionsOf_def allInstructions_def liveFunctions_def allFunctions_def inInitText_def
  hasSection_def findCallees_def findCalleesByType_def matchCandidate_def getFuncDef_def
  getScopeName_def calleesOf_def callersOf_def addCaller_def isaDbgInfoIntrinsic_def
  isaIntrinsicInst_def calledIntrinsic_def operandTypeAt_def Let_def

lemmas op_defs =
  opIR_def opModules_def opContext_def opFunctionAt_def opBlockAt_def

lemma freshContext_loaded: "loadModules exIR exModules emptyContext = freshContext"
  by (simp add: loadModules_def emptyContext_def registeredName_def ex_defs)

lemma ex_run: "run exIR exModules freshContext = Some exContext"
  by (simp add: run_eq ex_defs exContext_def)

lemma collectAddressTaken_spec:
  "Callees (collectAddressTaken g Fs Ctx) = Callees Ctx \<and>
   Callers (collectAddressTaken g Fs Ctx) = Callers Ctx \<and>
   Funcs (collectAddressTaken g Fs Ctx) = Funcs Ctx \<and>
   set (AddressTakenFuncs (collectAddressTaken g Fs Ctx)) =
     set (AddressTakenFuncs Ctx) \<union>
     {F \<in> set Fs. \<not> inInitText (functionAt g F) \<and> hasAddressTaken (functionAt g F)}"
  by (induction Fs arbitrary: Ctx) (auto simp: inInitText_def)

lemma set_map_filter_asCallBase: "set (List.map_filter asCallBase Is) = callsIn Is"
  by (induction Is) (auto split: option.splits)

lemma callsIn_allInstructions:
  "callsIn (allInstructions g Fs) = (\<Union>F \<in> set Fs. set (callSitesOf g F))"
  by (induction Fs) (auto simp: callSitesOf_def set_map_filter_asCallBase)

lemma in_allFunctions:
  "F \<in> set (allFunctions Ms) \<longleftrightarrow> (\<exists>M \<in> set Ms. F \<in> set (moduleFunctions M))"
  by (auto simp: allFunctions_def)

text \<open>The state after a completed run, in terms of the state before.\<close>

lemma run_spec:
  assumes "run g Ms Ctx0 = Some Ctx"
  shows "set (AddressTakenFuncs Ctx) =
           set (AddressTakenFuncs Ctx0) \<union>
           {F \<in> set (allFunctions Ms).
              \<not> inInitText (functionAt g F) \<and> hasAddressTaken (functionAt g F)}"
    and "set (calleesOf Ctx S) =
           set (calleesOf Ctx0 S) \<union>
           (if S \<in> processedCalls g (allInstructions g (liveFunctions g (allFunctions Ms)))
            then targets g Ctx S else {})"
    and "set (callersOf Ctx F) =
           set (callersOf Ctx0 F) \<union>
           {CB \<in> callsIn (allInstructions g (allFunctions Ms)).
              \<not> isaDbgInfoIntrinsic g CB \<and> F \<in> set (calleesOf Ctx CB)}"
    and "Funcs Ctx = Funcs Ctx0"
proof -
  let ?C1 = "collectAddressTaken g (allFunctions Ms) Ctx0"
  let ?live = "allInstructions g (liveFunctions g (allFunctions Ms))"
  let ?all = "allInstructions g (allFunctions Ms)"
  obtain c Ctx2 where r: "runOnInstructions g ?live False ?C1 = (c, Ctx2)"
    by (cases "runOnInstructions g ?live False ?C1")
  with assms have f: "Ctx = finalizeInstructions g ?all Ctx2"
    by (simp add: run_eq)
  note i = collectAddressTaken_spec [of g "allFunctions Ms" Ctx0]
  note s = runOnInstructions_spec [OF r]
  note z = finalizeInstructions_spec [of g ?all Ctx2]
  have c01: "\<And>CB. calleesOf ?C1 CB = calleesOf Ctx0 CB" using i by (simp add: calleesOf_def)
  have k01: "\<And>F. callersOf ?C1 F = callersOf Ctx0 F" using i by (simp add: callersOf_def)
  have k12: "\<And>F. callersOf Ctx2 F = callersOf ?C1 F" using s by (simp add: callersOf_def)
  have t: "\<And>CB. targets g Ctx CB = targets g ?C1 CB"
    by (rule targets_cong) (use s z f in simp_all)
  show "Funcs Ctx = Funcs Ctx0" using i s f by simp
  show "set (AddressTakenFuncs Ctx) =
           set (AddressTakenFuncs Ctx0) \<union>
           {F \<in> set (allFunctions Ms).
              \<not> inInitText (functionAt g F) \<and> hasAddressTaken (functionAt g F)}"
    using i s z f by simp
  show cs: "set (calleesOf Ctx S) =
           set (calleesOf Ctx0 S) \<union>
           (if S \<in> processedCalls g ?live then targets g Ctx S else {})" for S
    using s z f c01 t by simp
  show "set (callersOf Ctx F) =
           set (callersOf Ctx0 F) \<union>
           {CB \<in> callsIn ?all. \<not> isaDbgInfoIntrinsic g CB \<and> F \<in> set (calleesOf Ctx CB)}"
    using z f k01 k12 by simp
qed

lemma processed_live:
  "S \<in> processedCalls g (allInstructions g (liveFunctions g (allFunctions Ms))) \<longleftrightarrow>
     (\<exists>M \<in> set Ms. \<exists>F0 \<in> set (moduleFunctions M).
        \<not> inInitText (functionAt g F0) \<and> S \<in> set (callSitesOf g F0)) \<and>
     \<not> isInlineAsm (callAt g S) \<and> \<not> calledIntrinsic g S"
  by (auto simp: processedCalls_def callsIn_allInstructions liveFunctions_def in_allFunctions)


text \<open>
  A second way in which a variadic candidate escapes the claim: its formal
  parameters are compared with the operands of the call by position, not with its
  arguments only. In the program \<open>op\<close> the indirect call 100 has no argument and the
  address-taken \<open>int printf(char *, ...)\<close> has one formal parameter, of type \<open>i8*\<close>;
  it is compared with the called operand, a pointer, and \<open>printf\<close> becomes a callee
  of the call.
\<close>

lemma variadic_candidate_meets_called_operand:
  "run opIR opModules (loadModules opIR opModules emptyContext) = Some opContext \<and>
   calleesOf opContext 100 = [2] \<and>
   argTypes (callAt opIR 100) = [] \<and>
   paramTypes (functionAt opIR 2) = [PointerTy (IntegerTy 8) 0] \<and>
   operandTypeAt opIR 100 0 = PointerTy (FunctionTy voidTy [] False) 0"
  by (simp add: run_eq ex_defs op_defs loadModules_def emptyContext_def registeredName_def)



lemma callers_inverse:
  assumes "run g Ms Ctx0 = Some Ctx"
    and "Callees Ctx0 = Map.empty" and "Callers Ctx0 = []"
  shows "s \<in> set (callersOf Ctx f) \<longleftrightarrow> f \<in> set (calleesOf Ctx s)"
proof -
  have c0: "\<And>S. calleesOf Ctx0 S = []" using assms(2) by (simp add: calleesOf_def)
  have k0: "\<And>F. callersOf Ctx0 F = []" using assms(3) by (simp add: callersOf_def)
  note cs = run_spec(2) [OF assms(1), unfolded c0]
  note ks = run_spec(3) [OF assms(1), unfolded k0]
  have "s \<in> callsIn (allInstructions g (allFunctions Ms)) \<and> \<not> isaDbgInfoIntrinsic g s"
    if "f \<in> set (calleesOf Ctx s)"
  proof -
    from that cs [of s]
    have "s \<in> processedCalls g (allInstructions g (liveFunctions g (allFunctions Ms)))"
      by (auto split: if_splits)
    then show ?thesis
      by (auto simp: processedCalls_def callsIn_allInstructions liveFunctions_def
            isaIntrinsicInst_def isaDbgInfoIntrinsic_def)
  qed
  then show ?thesis unfolding ks by auto
qed

lemma doBasicInitialization_fields:
  "Callees (doBasicInitialization g Fs Ctx) = Callees Ctx \<and>
   Callers (doBasicInitialization g Fs Ctx) = Callers Ctx \<and>
   AddressTakenFuncs (doBasicInitialization g Fs Ctx) = AddressTakenFuncs Ctx"
  by (induction Fs arbitrary: Ctx) auto

lemma loadModules_fields:
  "Callees (loadModules g Ms Ctx) = Callees Ctx \<and>
   Callers (loadModules g Ms Ctx) = Callers Ctx \<and>
   AddressTakenFuncs (loadModules g Ms Ctx) = AddressTakenFuncs Ctx"
  unfolding loadModules_def
  by (induction Ms arbitrary: Ctx) (simp_all add: doBasicInitialization_fields)

text \<open>
  In \<open>main\<close> the phase runs on the registry that loading the modules leaves, in
  which \<open>Callees\<close> and \<open>Callers\<close> are empty: there the two maps are inverses of each
  other for every program.
\<close>

lemma callers_inverse_after_loading:
  "\<exists>Ctx. run g Ms (loadModules g Ms emptyContext) = Some Ctx \<and>
     (\<forall>s f. s \<in> set (callersOf Ctx f) \<longleftrightarrow> f \<in> set (calleesOf Ctx s))"
proof -
  obtain Ctx where r: "run g Ms (loadModules g Ms emptyContext) = Some Ctx"
    using run_completes by blast
  have "Callees (loadModules g Ms emptyContext) = Map.empty"
    "Callers (loadModules g Ms emptyContext) = []"
    by (simp_all add: loadModules_fields emptyContext_def)
  from callers_inverse [OF r this] r show ?thesis by blast
qed

text \<open>
  C2. Started from a registry with empty \<open>Callees\<close> and \<open>Callers\<close>, the call-graph
  phase completes, and after its finalization a call site \<open>s\<close> is in \<open>Callers[f]\<close>
  if and only if \<open>f\<close> is in \<open>Callees[s]\<close>, for every \<open>s\<close> and \<open>f\<close>.
\<close>

theorem C2_callers_inverse_of_callees:
  assumes "Callees Ctx0 = Map.empty" and "Callers Ctx0 = []"
  shows "\<exists>Ctx. run g Ms Ctx0 = Some Ctx \<and>
           (\<forall>s f. s \<in> set (callersOf Ctx f) \<longleftrightarrow> f \<in> set (calleesOf Ctx s))"
proof -
  obtain Ctx where r: "run g Ms Ctx0 = Some Ctx" using run_completes by blast
  from callers_inverse [OF r assms] r show ?thesis by blast
qed

text \<open>The example program: call 103 and its callee \<open>target\<close>.\<close>

theorem C2_callers_inverse_of_callees_witness:
  "run exIR exModules freshContext = Some exContext \<and>
   (103 \<in> set (callersOf exContext 5)) = (5 \<in> set (calleesOf exContext 103)) \<and>
   5 \<in> set (calleesOf exContext 103)"
proof -
  have r: "run exIR exModules freshContext = Some exContext"
    by (simp add: run_eq ex_defs exContext_def)
  have h: "Callees freshContext = Map.empty" "Callers freshContext = []"
    by (simp_all add: freshContext_def)
  from C2_callers_inverse_of_callees [OF h, of exIR exModules] r
  have "(103 \<in> set (callersOf exContext 5)) = (5 \<in> set (calleesOf exContext 103))"
    by auto
  with r show ?thesis
    by (simp add: exContext_def calleesOf_def)
qed

text \<open>
  C4 (counterexample). One module pass over the example program, started after
  initialization: the callee sets of calls 100 (indirect) and 103 (direct) grow from
  empty, yet the pass answers \<open>false\<close> and has swept once only: call 100 was
  recorded in \<open>IndirectCallInsts\<close> a single time.
\<close>

theorem C4_counterexample:
  "calleesOf initializedContext 100 = [] \<and>
   doModulePass exIR (hd exModules) initializedContext = Some (False, sweptContext) \<and>
   calleesOf sweptContext 100 = [2] \<and> calleesOf sweptContext 103 = [5] \<and>
   IndirectCallInsts sweptContext = [100]"
  by (simp add: doModulePass_once runOnFunction_def ex_defs initializedContext_def
        sweptContext_def)

text \<open>
  C4 (amended). In the type-based mode that is compiled in, no insertion into a
  \<open>Callees\<close> set sets the changed flag: \<open>runOnFunction\<close> always answers \<open>false\<close>,
  so \<open>doModulePass\<close> ends after exactly one sweep over the functions of the module,
  whether or not a set grew, and answers \<open>false\<close>.
\<close>

theorem C4_single_sweep:
  "doModulePass g M Ctx =
     Some (False, snd (runOnFunctions g (moduleFunctions M) False Ctx)) \<and>
   (\<forall>F. \<not> fst (runOnFunction g F Ctx))"
  using doModulePass_once [of g M Ctx] by (simp add: runOnFunction_False)

text \<open>The module pass of the example program.\<close>

theorem C4_single_sweep_witness:
  "doModulePass exIR (hd exModules) initializedContext = Some (False, sweptContext) \<and>
   runOnFunction exIR 5 initializedContext =
     (False, initializedContext\<lparr>Callees := [104 \<mapsto> [1]]\<rparr>)"
proof -
  have s: "runOnFunctions exIR (moduleFunctions (hd exModules)) False initializedContext
             = (False, sweptContext)"
    by (simp add: runOnFunction_def ex_defs initializedContext_def sweptContext_def)
  have f: "runOnFunction exIR 5 initializedContext =
             (False, initializedContext\<lparr>Callees := [104 \<mapsto> [1]]\<rparr>)"
    by (simp add: runOnFunction_def ex_defs initializedContext_def)
  from C4_single_sweep [of exIR "hd exModules" initializedContext] s f show ?thesis
    by simp
qed

text \<open>
  C5 (counterexample). \<open>setup\<close> lies in \<open>.init.text\<close> and is called directly by
  \<open>main\<close>: after the call-graph phase it is in the callee set of call 101 and is a
  key of \<open>Callers\<close>.
\<close>

theorem C5_counterexample:
  "run exIR exModules freshContext = Some exContext \<and>
   getSection (functionAt exIR 3) = ''.init.text'' \<and>
   3 \<in> set (calleesOf exContext 101) \<and>
   101 \<in> set (callersOf exContext 3) \<and> 3 \<in> fst ` set (Callers exContext)"
  by (simp add: run_eq ex_defs exContext_def)

text \<open>
  C5 (amended). Started from an empty registry, the call-graph phase completes, and
  after it: no function of \<open>.init.text\<close> is in \<open>AddressTakenFuncs\<close>; every call site
  that has a callee, or that is in a \<open>Callers\<close> set, lies in a function outside
  \<open>.init.text\<close>; and no callee of an indirect call lies in \<open>.init.text\<close>. (A
  function of \<open>.init.text\<close> that is called directly is not excluded.)
\<close>

theorem C5_init_text_exclusion:
  assumes "Callees Ctx0 = Map.empty" and "Callers Ctx0 = []" and "AddressTakenFuncs Ctx0 = []"
  shows "\<exists>Ctx. run g Ms Ctx0 = Some Ctx \<and>
           (\<forall>F S.
              (F \<in> set (AddressTakenFuncs Ctx) \<longrightarrow> \<not> inInitText (functionAt g F)) \<and>
              (F \<in> set (calleesOf Ctx S) \<or> S \<in> set (callersOf Ctx F) \<longrightarrow>
                 (\<exists>M \<in> set Ms. \<exists>F0 \<in> set (moduleFunctions M).
                    \<not> inInitText (functionAt g F0) \<and> S \<in> set (callSitesOf g F0))) \<and>
              (F \<in> set (calleesOf Ctx S) \<and> calledFunction (callAt g S) = None \<longrightarrow>
                 \<not> inInitText (functionAt g F)))"
proof -
  obtain Ctx where r: "run g Ms Ctx0 = Some Ctx" using run_completes by blast
  have c0: "\<And>S. calleesOf Ctx0 S = []" using assms(1) by (simp add: calleesOf_def)
  note inv = callers_inverse [OF r assms(1,2)]
  note cs = run_spec(2) [OF r, unfolded c0]
  have a: "\<not> inInitText (functionAt g F')" if "F' \<in> set (AddressTakenFuncs Ctx)" for F'
    using that run_spec(1) [OF r] assms(3) by auto
  have b: "\<exists>M \<in> set Ms. \<exists>F0 \<in> set (moduleFunctions M).
             \<not> inInitText (functionAt g F0) \<and> S \<in> set (callSitesOf g F0)"
    if "F \<in> set (calleesOf Ctx S)" for F S
  proof -
    from that cs [of S]
    have "S \<in> processedCalls g (allInstructions g (liveFunctions g (allFunctions Ms)))"
      by (auto split: if_splits)
    then show ?thesis unfolding processed_live by blast
  qed
  have c: "\<not> inInitText (functionAt g F)"
    if "F \<in> set (calleesOf Ctx S)" "calledFunction (callAt g S) = None" for F S
  proof -
    from that cs [of S] have "F \<in> targets g Ctx S" by (auto split: if_splits)
    with that(2) have "F \<in> set (AddressTakenFuncs Ctx)" by (simp add: targets_def)
    then show ?thesis by (rule a)
  qed
  have "(F \<in> set (AddressTakenFuncs Ctx) \<longrightarrow> \<not> inInitText (functionAt g F)) \<and>
        (F \<in> set (calleesOf Ctx S) \<or> S \<in> set (callersOf Ctx F) \<longrightarrow>
           (\<exists>M \<in> set Ms. \<exists>F0 \<in> set (moduleFunctions M).
              \<not> inInitText (functionAt g F0) \<and> S \<in> set (callSitesOf g F0))) \<and>
        (F \<in> set (calleesOf Ctx S) \<and> calledFunction (callAt g S) = None \<longrightarrow>
           \<not> inInitText (functionAt g F))" for F S
    using a [of F] b [of F S] c [of F S] inv [of S F] by blast
  with r show ?thesis by blast
qed

text \<open>The example program: the indirect call 100 and its callee \<open>vf\<close>.\<close>

theorem C5_init_text_exclusion_witness:
  "run exIR exModules freshContext = Some exContext \<and>
   2 \<in> set (calleesOf exContext 100) \<and> \<not> inInitText (functionAt exIR 2) \<and>
   (\<exists>M \<in> set exModules. \<exists>F0 \<in> set (moduleFunctions M).
      \<not> inInitText (functionAt exIR F0) \<and> 100 \<in> set (callSitesOf exIR F0))"
proof -
  have r: "run exIR exModules freshContext = Some exContext"
    by (simp add: run_eq ex_defs exContext_def)
  have h: "Callees freshContext = Map.empty" "Callers freshContext = []"
    "AddressTakenFuncs freshContext = []"
    by (simp_all add: freshContext_def)
  have m: "2 \<in> set (calleesOf exContext 100)" "calledFunction (callAt exIR 100) = None"
    by (simp_all add: exContext_def ex_defs)
  from C5_init_text_exclusion [OF h, of exIR exModules] r have
    "(2 \<in> set (calleesOf exContext 100) \<or> 100 \<in> set (callersOf exContext 2) \<longrightarrow>
        (\<exists>M \<in> set exModules. \<exists>F0 \<in> set (moduleFunctions M).
           \<not> inInitText (functionAt exIR F0) \<and> 100 \<in> set (callSitesOf exIR F0))) \<and>
     (2 \<in> set (calleesOf exContext 100) \<and> calledFunction (callAt exIR 100) = None \<longrightarrow>
        \<not> inInitText (functionAt exIR 2))"
    by auto
  with r m show ?thesis by simp
qed

subsection \<open>Depth-bounded forward slicing\<close>

lemma set_calleeList:
  "set (calleeList g Ctx F) = {G. (F, G) \<in> calleeEdges g Ctx}"
  by (auto simp: calleeList_def calleeEdges_def calleesOf_def split: option.splits)

lemma reachableWithin_0: "reachableWithin g Ctx F 0 = {F}"
  by (auto simp: reachableWithin_def)

lemma reachableWithin_Suc:
  "reachableWithin g Ctx F (Suc n) =
     insert F (\<Union>H \<in> set (calleeList g Ctx F). reachableWithin g Ctx H n)"
proof (intro set_eqI iffI)
  fix G assume "G \<in> reachableWithin g Ctx F (Suc n)"
  then obtain k where k: "k \<le> Suc n" "(F, G) \<in> calleeEdges g Ctx ^^ k"
    by (auto simp: reachableWithin_def)
  show "G \<in> insert F (\<Union>H \<in> set (calleeList g Ctx F). reachableWithin g Ctx H n)"
  proof (cases k)
    case 0
    with k show ?thesis by simp
  next
    case (Suc j)
    with k have "(F, G) \<in> calleeEdges g Ctx ^^ Suc j" by simp
    then obtain H where "(F, H) \<in> calleeEdges g Ctx" "(H, G) \<in> calleeEdges g Ctx ^^ j"
      by (rule relpow_Suc_E2)
    with k Suc show ?thesis
      by (auto simp: set_calleeList reachableWithin_def)
  qed
next
  fix G assume a: "G \<in> insert F (\<Union>H \<in> set (calleeList g Ctx F). reachableWithin g Ctx H n)"
  show "G \<in> reachableWithin g Ctx F (Suc n)"
  proof (cases "G = F")
    case True
    have "(F, F) \<in> calleeEdges g Ctx ^^ 0" by simp
    then show ?thesis unfolding True reachableWithin_def by blast
  next
    case False
    with a obtain H k where "(F, H) \<in> calleeEdges g Ctx" "k \<le> n"
      "(H, G) \<in> calleeEdges g Ctx ^^ k"
      by (auto simp: set_calleeList reachableWithin_def)
    then have "(F, G) \<in> calleeEdges g Ctx ^^ Suc k" "Suc k \<le> Suc n"
      using relpow_Suc_I2 [of F H "calleeEdges g Ctx" G k] by simp_all
    then show ?thesis unfolding reachableWithin_def by blast
  qed
qed

text \<open>The loop over the callees returns when each call does.\<close>

lemma forwardCallees_from_function:
  assumes "\<And>F visited. \<exists>v. forwardSlicingFunctionWithDepth fuel g Ctx F d visited = Some v \<and>
              set v = set visited \<union> R F"
  shows "\<exists>v. forwardCallees fuel g Ctx cs d visited = Some v \<and>
           set v = set visited \<union> (\<Union>c \<in> set cs. R c)"
proof (induction cs arbitrary: visited)
  case Nil
  show ?case by simp
next
  case (Cons c cs)
  from assms [of c visited] obtain v1 where
    1: "forwardSlicingFunctionWithDepth fuel g Ctx c d visited = Some v1"
       "set v1 = set visited \<union> R c" by blast
  from Cons [of v1] obtain v2 where
    2: "forwardCallees fuel g Ctx cs d v1 = Some v2" "set v2 = set v1 \<union> (\<Union>c \<in> set cs. R c)"
    by blast
  from 1 2 show ?case by auto
qed

lemma forwardSlicingFunctionWithDepth_nat:
  "n < fuel \<Longrightarrow>
     \<exists>v. forwardSlicingFunctionWithDepth fuel g Ctx F (int n) visited = Some v \<and>
         set v = set visited \<union> reachableWithin g Ctx F n"
proof (induction n arbitrary: fuel F visited)
  case 0
  then obtain f where "fuel = Suc f" by (cases fuel) auto
  then show ?case by (simp add: reachableWithin_0)
next
  case (Suc n)
  then obtain f where f: "fuel = Suc f" "n < f" by (cases fuel) auto
  have "\<exists>v. forwardCallees f g Ctx (calleeList g Ctx F) (int n) (List.insert F visited) = Some v \<and>
          set v = set (List.insert F visited) \<union>
                  (\<Union>c \<in> set (calleeList g Ctx F). reachableWithin g Ctx c n)"
    by (rule forwardCallees_from_function) (rule Suc.IH [OF f(2)])
  then show ?case
    by (auto simp: f reachableWithin_Suc Let_def)
qed

text \<open>
  C10. For every function \<open>F\<close> and every depth \<open>\<ge> 0\<close>,
  \<open>forwardSlicingFunctionWithDepth\<close> returns, whatever the call graph (its recursion
  is never deeper than \<open>depth + 1\<close> calls, which is what the bound \<open>fuel\<close> admits),
  and on return \<open>visited\<close> has grown by exactly the functions that \<open>Callees\<close> edges
  reach from \<open>F\<close> in at most \<open>depth\<close> hops, \<open>F\<close> among them.
\<close>

theorem C10_forward_depth_terminates:
  assumes "0 \<le> depth" and "nat depth < fuel"
  shows "\<exists>visited'. forwardSlicingFunctionWithDepth fuel g Ctx F depth visited = Some visited' \<and>
           set visited' = set visited \<union> reachableWithin g Ctx F (nat depth)"
  using forwardSlicingFunctionWithDepth_nat [OF assms(2), of g Ctx F visited] assms(1)
  by simp

text \<open>
  The example program, whose call graph has the cycle \<open>main\<close>, \<open>target\<close>, \<open>main\<close>:
  from \<open>target\<close> to depth 3.
\<close>

theorem C10_forward_depth_terminates_witness:
  "forwardSlicingFunctionWithDepth (Suc (Suc (Suc (Suc 0)))) exIR exContext 5 3 []
     = Some [4, 3, 2, 1, 5] \<and>
   reachableWithin exIR exContext 5 (nat 3) = set [4, 3, 2, 1, 5]"
proof -
  have c: "calleeList exIR exContext 5 = [1]"
    "calleeList exIR exContext (Suc 0) = [2, 3, 4, 5]"
    "calleeList exIR exContext 2 = []" "calleeList exIR exContext 3 = []"
    "calleeList exIR exContext 4 = []"
    by (simp_all add: calleeList_def callSitesOf_def ex_defs exContext_def)
  have e: "forwardSlicingFunctionWithDepth (Suc (Suc (Suc (Suc 0)))) exIR exContext 5 3 []
             = Some [4, 3, 2, 1, 5]"
    by (simp add: c)
  have p: "0 \<le> (3::int)" "nat 3 < Suc (Suc (Suc (Suc 0)))" by simp_all
  from C10_forward_depth_terminates [OF p, of exIR exContext 5 "[]"]
  obtain v where
    v: "forwardSlicingFunctionWithDepth (Suc (Suc (Suc (Suc 0)))) exIR exContext 5 3 [] = Some v"
       "set v = set [] \<union> reachableWithin exIR exContext 5 (nat 3)"
    by blast
  from v(1) e have "v = [4, 3, 2, 1, 5]" by simp
  with v(2) have "reachableWithin exIR exContext 5 (nat 3) = set [4, 3, 2, 1, 5]"
    by (simp only: set_simps Un_empty_left)
  with e show ?thesis by (simp only: simp_thms)
qed

subsection \<open>The slicer: what each method adds\<close>

lemma grows_refl [simp]: "grows s s"
  by (simp add: grows_def)

lemma grows_trans: "grows s1 s2 \<Longrightarrow> grows s2 s3 \<Longrightarrow> grows s1 s3"
  by (auto simp: grows_def)

lemma set_insertAll [simp]: "set (insertAll xs S) = set xs \<union> set S"
  unfolding insertAll_def by (induction xs arbitrary: S) auto

lemma addOtherCalls_mono:
  "addOtherCalls g fBB Is vF = Some vF' \<Longrightarrow> set vF \<subseteq> set vF'"
proof (induction Is arbitrary: vF)
  case Nil
  then show ?case by simp
next
  case (Cons I Is)
  from Cons.prems show ?case
    by (auto split: option.splits if_splits dest!: Cons.IH)
qed

lemma addToVerboseCalls_mono:
  "addToVerboseCalls g CBS vF = Some vF' \<Longrightarrow> set vF \<subseteq> set vF'"
proof (induction CBS arbitrary: vF)
  case Nil
  then show ?case by simp
next
  case (Cons CB CBS)
  from Cons.prems show ?case
    by (auto simp: Let_def split: option.splits dest!: Cons.IH addOtherCalls_mono)
qed

lemma addToVerbose_grows: "addToVerbose g F s = Some s' \<Longrightarrow> grows s s'"
  by (auto simp: addToVerbose_def grows_def Let_def split: if_splits option.splits
      dest!: addToVerboseCalls_mono)

lemma backtrackingStep_mono:
  "set vBB0 \<subseteq> set (fst st) \<Longrightarrow> set vBB0 \<subseteq> set (fst (backtrackingStep g st))"
  by (cases st) (auto simp: backtrackingStep_def Let_def split: list.splits)

lemma backtrackingLoop_mono:
  assumes "backtrackingLoop g vBB0 BB = Some vBB"
  shows "set vBB0 \<subseteq> set vBB"
proof -
  from assms obtain q where
    w: "while_option (\<lambda>(vBB, toVisit). toVisit \<noteq> []) (backtrackingStep g) (vBB0, [BB])
          = Some (vBB, q)"
    by (auto simp: backtrackingLoop_def)
  have "set vBB0 \<subseteq> set (fst (vBB, q))"
  proof (rule while_option_rule [where P = "\<lambda>st. set vBB0 \<subseteq> set (fst st)", OF _ w])
    fix st :: "bbPtr list \<times> bbPtr list"
    assume "set vBB0 \<subseteq> set (fst st)"
    then show "set vBB0 \<subseteq> set (fst (backtrackingStep g st))"
      by (rule backtrackingStep_mono)
  qed simp
  then show ?thesis by simp
qed

lemma markVisited_grows: "grows s (markVisited g F s)"
  by (auto simp: grows_def markVisited_def)

lemma countSliced_grows: "grows s (countSliced CBSs s)"
  by (auto simp: grows_def countSliced_def)

lemma slice_grows:
  "(sliceFunction fuel g F s = Some s' \<longrightarrow> grows s s')"
  "(backtrackQueue fuel g BBs s = Some s' \<longrightarrow> grows s s')"
  "(backtracking fuel g BB s = Some s' \<longrightarrow> grows s s')"
proof (induction fuel g F s and fuel g BBs s and fuel g BB s
       arbitrary: s' and s' and s'
       rule: sliceFunction_backtrackQueue_backtracking.induct)
  case (1 g F s)
  show ?case by simp
next
  case (2 fuel g F s)
  show ?case
  proof
    assume a: "sliceFunction (Suc fuel) g F s = Some s'"
    show "grows s s'"
    proof (cases "F \<in> set (visitedF s)")
      case True
      with a show ?thesis by simp
    next
      case False
      with a obtain s3 where s3: "addToVerbose g F (markVisited g F s) = Some s3"
        by (auto split: option.splits)
      have g3: "grows s s3"
        using markVisited_grows addToVerbose_grows [OF s3] by (rule grows_trans)
      show ?thesis
      proof (cases "matchingCBS g F s3 = []")
        case True
        with a False s3 g3 show ?thesis by simp
      next
        case m: False
        with a False s3 obtain s4 where
          s4: "backtrackQueue fuel g (toProcess g F s3) s3 = Some s4" and
          e: "s' = countSliced (matchingCBS g F s3) s4"
          by (auto split: option.splits)
        from "2.IH" [OF False s3 m] s4 have "grows s3 s4" by simp
        with g3 have "grows s s4" by (rule grows_trans)
        then show ?thesis unfolding e using countSliced_grows by (rule grows_trans)
      qed
    qed
  qed
next
  case (3 fuel g s)
  show ?case by simp
next
  case (4 fuel g BB BBs s)
  show ?case
  proof
    assume a: "backtrackQueue fuel g (BB # BBs) s = Some s'"
    then obtain s1 where s1: "backtracking fuel g BB s = Some s1"
      and r: "backtrackQueue fuel g BBs s1 = Some s'"
      by (auto split: option.splits)
    from "4.IH"(1) s1 have "grows s s1" by simp
    moreover from "4.IH"(2) [OF s1] r have "grows s1 s'" by simp
    ultimately show "grows s s'" by (rule grows_trans)
  qed
next
  case (5 g BB s)
  show ?case by simp
next
  case (6 fuel g BB s)
  show ?case
  proof
    assume a: "backtracking (Suc fuel) g BB s = Some s'"
    then obtain vBB where v: "backtrackingLoop g (visitedBB s) BB = Some vBB"
      and r: "sliceFunction fuel g (bbParent (blockAt g BB)) (s\<lparr>visitedBB := vBB\<rparr>) = Some s'"
      by (auto split: option.splits)
    from backtrackingLoop_mono [OF v] have "grows s (s\<lparr>visitedBB := vBB\<rparr>)"
      by (simp add: grows_def)
    moreover from "6.IH" [OF v] r have "grows (s\<lparr>visitedBB := vBB\<rparr>) s'" by simp
    ultimately show "grows s s'" by (rule grows_trans)
  qed
qed

lemma enqueueCallee_ext:
  assumes "enqueueCallee g (fV, q) c = (fV', q')"
  shows "set fV' = insert c (set fV)" and "set q \<subseteq> set q'"
    and "\<forall>f \<in> set fV'. f \<in> set fV \<or> set (basicBlocks (functionAt g f)) \<subseteq> set q'"
  using assms by (auto simp: enqueueCallee_def split: if_splits)

lemma foldl_enqueueCallee_ext:
  "foldl (enqueueCallee g) (fV, q) FS = (fV', q') \<Longrightarrow>
     set fV' = set fV \<union> set FS \<and> set q \<subseteq> set q' \<and>
     (\<forall>f \<in> set fV'. f \<in> set fV \<or> set (basicBlocks (functionAt g f)) \<subseteq> set q')"
proof (induction FS arbitrary: fV q)
  case Nil
  then show ?case by auto
next
  case (Cons c FS)
  obtain fV1 q1 where 1: "enqueueCallee g (fV, q) c = (fV1, q1)"
    by (cases "enqueueCallee g (fV, q) c")
  with Cons.prems have 2: "foldl (enqueueCallee g) (fV1, q1) FS = (fV', q')" by simp
  note a = enqueueCallee_ext [OF 1]
  note b = Cons.IH [OF 2]
  show ?case
  proof (intro conjI ballI)
    show "set fV' = set fV \<union> set (c # FS)" using a(1) b by auto
    show "set q \<subseteq> set q'" using a(2) b by auto
    fix f assume "f \<in> set fV'"
    with b have "f \<in> set fV1 \<or> set (basicBlocks (functionAt g f)) \<subseteq> set q'" by blast
    then show "f \<in> set fV \<or> set (basicBlocks (functionAt g f)) \<subseteq> set q'"
      using a(3) b by blast
  qed
qed

lemma enqueueCallees_ext:
  assumes "enqueueCallees g Ctx (fV, q) I = (fV', q')"
  shows "set fV \<subseteq> set fV'" and "set q \<subseteq> set q'"
    and "\<forall>f \<in> set fV'. f \<in> set fV \<or> set (basicBlocks (functionAt g f)) \<subseteq> set q'"
    and "\<And>CB. asCallBase I = Some CB \<Longrightarrow> set (calleesOf Ctx CB) \<subseteq> set fV'"
  using assms
  by (auto simp: enqueueCallees_def calleesOf_def split: option.splits
      dest!: foldl_enqueueCallee_ext)

lemma foldl_enqueueCallees_ext:
  "foldl (enqueueCallees g Ctx) (fV, q) Is = (fV', q') \<Longrightarrow>
     set fV \<subseteq> set fV' \<and> set q \<subseteq> set q' \<and>
     (\<forall>f \<in> set fV'. f \<in> set fV \<or> set (basicBlocks (functionAt g f)) \<subseteq> set q') \<and>
     (\<forall>I \<in> set Is. \<forall>CB. asCallBase I = Some CB \<longrightarrow> set (calleesOf Ctx CB) \<subseteq> set fV')"
proof (induction Is arbitrary: fV q)
  case Nil
  then show ?case by auto
next
  case (Cons I Is)
  obtain fV1 q1 where 1: "enqueueCallees g Ctx (fV, q) I = (fV1, q1)"
    by (cases "enqueueCallees g Ctx (fV, q) I")
  with Cons.prems have 2: "foldl (enqueueCallees g Ctx) (fV1, q1) Is = (fV', q')" by simp
  note a = enqueueCallees_ext [OF 1]
  note b = Cons.IH [OF 2]
  show ?case
  proof (intro conjI ballI allI impI)
    show "set fV \<subseteq> set fV'" using a(1) b by blast
    show "set q \<subseteq> set q'" using a(2) b by blast
  next
    fix f assume "f \<in> set fV'"
    with b have "f \<in> set fV1 \<or> set (basicBlocks (functionAt g f)) \<subseteq> set q'" by blast
    then show "f \<in> set fV \<or> set (basicBlocks (functionAt g f)) \<subseteq> set q'"
      using a(3) b by blast
  next
    fix J CB assume j: "J \<in> set (I # Is)" and c: "asCallBase J = Some CB"
    from b have b1: "set fV1 \<subseteq> set fV'"
      and b4: "\<forall>I \<in> set Is. \<forall>CB. asCallBase I = Some CB \<longrightarrow> set (calleesOf Ctx CB) \<subseteq> set fV'"
      by simp_all
    show "set (calleesOf Ctx CB) \<subseteq> set fV'"
    proof (cases "J = I")
      case True
      with c a(4) [of CB] have "set (calleesOf Ctx CB) \<subseteq> set fV1" by simp
      with b1 show ?thesis by blast
    next
      case False
      with j have "J \<in> set Is" by simp
      with b4 c show ?thesis by blast
    qed
  qed
qed

lemma forwardInv_I:
  assumes "set vb0 \<subseteq> set vb" and "set fV0 \<subseteq> set fV"
    and "J \<Longrightarrow> \<forall>f \<in> set fV. set (basicBlocks (functionAt g f)) \<subseteq> set vb \<union> set q"
    and "set (basicBlocks (functionAt g F)) \<subseteq> set visited \<union> set q"
    and "set visited \<subseteq> set vb"
    and "\<forall>b \<in> set visited. \<forall>I \<in> set (instructions (blockAt g b)). \<forall>CB.
           asCallBase I = Some CB \<longrightarrow> set (calleesOf Ctx CB) \<subseteq> set fV"
  shows "forwardInv g Ctx F J vb0 fV0 (vb, fV, visited, q)"
  using assms unfolding forwardInv_def prod.case by blast

lemma forwardInv_D:
  assumes "forwardInv g Ctx F J vb0 fV0 (vb, fV, visited, q)"
  shows "set vb0 \<subseteq> set vb" and "set fV0 \<subseteq> set fV"
    and "J \<Longrightarrow> \<forall>f \<in> set fV. set (basicBlocks (functionAt g f)) \<subseteq> set vb \<union> set q"
    and "set (basicBlocks (functionAt g F)) \<subseteq> set visited \<union> set q"
    and "set visited \<subseteq> set vb"
    and "\<forall>b \<in> set visited. \<forall>I \<in> set (instructions (blockAt g b)). \<forall>CB.
           asCallBase I = Some CB \<longrightarrow> set (calleesOf Ctx CB) \<subseteq> set fV"
  using assms unfolding forwardInv_def prod.case by blast+

lemma forwardStep_inv:
  assumes "forwardInv g Ctx F J vb0 fV0 st" and "snd (snd (snd st)) \<noteq> []"
  shows "forwardInv g Ctx F J vb0 fV0 (forwardStep g Ctx st)"
proof -
  obtain vb fV visited q where st: "st = (vb, fV, visited, q)" by (cases st) auto
  with assms(2) obtain current rest where q: "q = current # rest" by (cases q) auto
  note i = forwardInv_D [OF assms(1) [unfolded st q]]
  have sq: "set (current # rest) = insert current (set rest)" by simp
  have si: "\<And>xs. set (List.insert current xs) = insert current (set xs)" by simp
  show ?thesis
  proof (cases "current \<in> set visited")
    case True
    then have e: "forwardStep g Ctx st = (List.insert current vb, fV, visited, rest)"
      by (simp add: st q forwardStep_def Let_def)
    show ?thesis
      unfolding e
    proof (rule forwardInv_I)
      show "set vb0 \<subseteq> set (List.insert current vb)" using i(1) unfolding si by blast
      show "set fV0 \<subseteq> set fV" by (rule i(2))
      show "\<forall>f \<in> set fV. set (basicBlocks (functionAt g f))
              \<subseteq> set (List.insert current vb) \<union> set rest" if J
        using i(3) [OF that] unfolding si sq by blast
      show "set (basicBlocks (functionAt g F)) \<subseteq> set visited \<union> set rest"
        using i(4) True unfolding sq by blast
      show "set visited \<subseteq> set (List.insert current vb)" using i(5) unfolding si by blast
      show "\<forall>b \<in> set visited. \<forall>I \<in> set (instructions (blockAt g b)). \<forall>CB.
           asCallBase I = Some CB \<longrightarrow> set (calleesOf Ctx CB) \<subseteq> set fV"
        by (rule i(6))
    qed
  next
    case False
    obtain fV' q' where
      f: "foldl (enqueueCallees g Ctx) (fV, rest) (instructions (blockAt g current)) = (fV', q')"
      by (cases "foldl (enqueueCallees g Ctx) (fV, rest) (instructions (blockAt g current))")
    from False have e: "forwardStep g Ctx st =
        (List.insert current vb, fV', List.insert current visited, q')"
      by (simp add: st q forwardStep_def Let_def f)
    from foldl_enqueueCallees_ext [OF f] have
      x1: "set fV \<subseteq> set fV'" and x2: "set rest \<subseteq> set q'" and
      x3: "\<forall>f \<in> set fV'. f \<in> set fV \<or> set (basicBlocks (functionAt g f)) \<subseteq> set q'" and
      x4: "\<forall>I \<in> set (instructions (blockAt g current)). \<forall>CB.
             asCallBase I = Some CB \<longrightarrow> set (calleesOf Ctx CB) \<subseteq> set fV'"
      by blast+
    show ?thesis
      unfolding e
    proof (rule forwardInv_I)
      show "set vb0 \<subseteq> set (List.insert current vb)" using i(1) unfolding si by blast
      show "set fV0 \<subseteq> set fV'" using i(2) x1 by blast
      show "\<forall>f \<in> set fV'. set (basicBlocks (functionAt g f))
              \<subseteq> set (List.insert current vb) \<union> set q'" if J
      proof
        fix f assume "f \<in> set fV'"
        with x3 consider "f \<in> set fV" | "set (basicBlocks (functionAt g f)) \<subseteq> set q'"
          by blast
        then show "set (basicBlocks (functionAt g f)) \<subseteq> set (List.insert current vb) \<union> set q'"
        proof cases
          case 1
          with i(3) [OF that] have "set (basicBlocks (functionAt g f))
             \<subseteq> set vb \<union> insert current (set rest)" unfolding sq by blast
          with x2 show ?thesis unfolding si by blast
        next
          case 2
          then show ?thesis by blast
        qed
      qed
      show "set (basicBlocks (functionAt g F)) \<subseteq> set (List.insert current visited) \<union> set q'"
        using i(4) x2 unfolding sq si by blast
      show "set (List.insert current visited) \<subseteq> set (List.insert current vb)"
        using i(5) unfolding si by blast
      show "\<forall>b \<in> set (List.insert current visited).
              \<forall>I \<in> set (instructions (blockAt g b)). \<forall>CB.
           asCallBase I = Some CB \<longrightarrow> set (calleesOf Ctx CB) \<subseteq> set fV'"
      proof (intro ballI allI impI)
        fix b I CB
        assume b: "b \<in> set (List.insert current visited)"
          and I: "I \<in> set (instructions (blockAt g b))" and c: "asCallBase I = Some CB"
        show "set (calleesOf Ctx CB) \<subseteq> set fV'"
        proof (cases "b = current")
          case True
          with I c x4 show ?thesis by blast
        next
          case False
          with b have "b \<in> set visited" unfolding si by blast
          with i(6) I c have "set (calleesOf Ctx CB) \<subseteq> set fV" by blast
          with x1 show ?thesis by blast
        qed
      qed
    qed
  qed
qed

lemma forwardSlicingFunction_spec:
  assumes "forwardSlicingFunction g F s = Some s'"
  shows "slicerCtx s' = slicerCtx s \<and> visitedF s' = visitedF s \<and> verboseF s' = verboseF s \<and>
         visitedBB s' = visitedBB s \<and> fullFunc s' = fullFunc s \<and>
         slicedFuncCnt s' = slicedFuncCnt s"
    and "set (verboseBB s) \<subseteq> set (verboseBB s')"
    and "set (fVisitedF s) \<subseteq> set (fVisitedF s')"
    and "covered g s \<Longrightarrow> covered g s'"
    and "set (basicBlocks (functionAt g F)) \<subseteq> set (verboseBB s')"
    and "set (calleeList g (slicerCtx s) F) \<subseteq> set (fVisitedF s')"
proof -
  let ?b = "\<lambda>(vbBB :: bbPtr list, fV :: funcPtr list, visited :: bbPtr list, toVisit :: bbPtr list).
              toVisit \<noteq> []"
  let ?P = "forwardInv g (slicerCtx s) F (covered g s) (verboseBB s) (fVisitedF s)"
  from assms obtain vb fV visited q where
    w: "while_option ?b (forwardStep g (slicerCtx s))
          (verboseBB s, fVisitedF s, [], basicBlocks (functionAt g F)) = Some (vb, fV, visited, q)"
    and s': "s' = s\<lparr>verboseBB := vb, fVisitedF := fV\<rparr>"
    by (auto simp: forwardSlicingFunction_def split: option.splits)
  from while_option_stop [OF w] have q: "q = []" by simp
  have init: "?P (verboseBB s, fVisitedF s, [], basicBlocks (functionAt g F))"
    by (rule forwardInv_I) (auto simp: covered_def)
  have "?P (vb, fV, visited, q)"
  proof (rule while_option_rule [where P = ?P, OF _ w init])
    fix st assume "?P st" "?b st"
    then show "?P (forwardStep g (slicerCtx s) st)"
      by (intro forwardStep_inv) (auto split: prod.splits)
  qed
  note i = forwardInv_D [OF this [unfolded q]]
  show "slicerCtx s' = slicerCtx s \<and> visitedF s' = visitedF s \<and> verboseF s' = verboseF s \<and>
         visitedBB s' = visitedBB s \<and> fullFunc s' = fullFunc s \<and>
         slicedFuncCnt s' = slicedFuncCnt s"
    by (simp add: s')
  show "set (verboseBB s) \<subseteq> set (verboseBB s')" using i(1) by (simp add: s')
  show "set (fVisitedF s) \<subseteq> set (fVisitedF s')" using i(2) by (simp add: s')
  show "covered g s'" if "covered g s"
    using i(3) [OF that] by (simp add: s' covered_def)
  show "set (basicBlocks (functionAt g F)) \<subseteq> set (verboseBB s')"
    using i(4) i(5) by (auto simp: s')
  show "set (calleeList g (slicerCtx s) F) \<subseteq> set (fVisitedF s')"
  proof
    fix c assume "c \<in> set (calleeList g (slicerCtx s) F)"
    then obtain CB where cb: "CB \<in> set (callSitesOf g F)" and c: "c \<in> set (calleesOf (slicerCtx s) CB)"
      by (auto simp: calleeList_def calleesOf_def split: option.splits)
    from cb obtain b I where b: "b \<in> set (basicBlocks (functionAt g F))"
      and I: "I \<in> set (instructions (blockAt g b))" and a: "asCallBase I = Some CB"
      by (auto simp: callSitesOf_def instructionsOf_def set_map_filter_asCallBase callsIn_def)
    from b i(4) have "b \<in> set visited" by auto
    with i(6) I a have "set (calleesOf (slicerCtx s) CB) \<subseteq> set fV" by blast
    with c show "c \<in> set (fVisitedF s')" by (auto simp: s')
  qed
qed

lemma forwardSlicingFunction_grows:
  "forwardSlicingFunction g F s = Some s' \<Longrightarrow> grows s s'"
  using forwardSlicingFunction_spec(1-3) [of g F s s'] by (simp add: grows_def)

lemma forwardSlicingFunctionStub_grows:
  "forwardSlicingFunctionStub g modules name s = Some s' \<Longrightarrow> grows s s'"
  by (auto simp: forwardSlicingFunctionStub_def split: option.splits
      dest: forwardSlicingFunction_grows)

lemma sliceTarget_grows:
  assumes "sliceTarget fuel g modules targetFunc s = Some s'"
  shows "grows s s'"
proof -
  from assms obtain s1 s2 s3 s4 where
    1: "sliceFunction fuel g targetFunc s = Some s1" and
    2: "forwardSlicingFunction g targetFunc s1 = Some s2" and
    3: "forwardSlicingFunctionStub g modules ''LLVMFuzzerInitialize'' s2 = Some s3" and
    4: "forwardSlicingFunctionStub g modules ''LLVMFuzzerTestOneInput'' s3 = Some s4" and
    5: "forwardSlicingFunctionStub g modules ''LLVMFuzzerRunDriver'' s4 = Some s'"
    by (auto simp: sliceTarget_def split: option.splits)
  from slice_grows(1) [of fuel g targetFunc s s1] 1 have "grows s s1" by simp
  note grows_trans [OF this forwardSlicingFunction_grows [OF 2]]
  note grows_trans [OF this forwardSlicingFunctionStub_grows [OF 3]]
  note grows_trans [OF this forwardSlicingFunctionStub_grows [OF 4]]
  note grows_trans [OF this forwardSlicingFunctionStub_grows [OF 5]]
  then show ?thesis .
qed

lemma sliceTargets_grows:
  "sliceTargets fuel g modules lines Sl = Some Sl' \<Longrightarrow> grows Sl Sl'"
proof (induction lines arbitrary: Sl)
  case Nil
  then show ?case by simp
next
  case (Cons line lines)
  show ?case
  proof (cases "parseTargetLine line")
    case None
    with Cons show ?thesis by simp
  next
    case (Some p)
    obtain fileName funcName where p: "p = (fileName, funcName)" by (cases p)
    show ?thesis
    proof (cases "findTargetByFunctionName g modules fileName funcName")
      case None
      with Cons Some p show ?thesis by simp
    next
      case t: (Some targetFunc)
      with Cons.prems Some p obtain Sl1 where
        1: "sliceTarget fuel g modules targetFunc Sl = Some Sl1" and
        2: "sliceTargets fuel g modules lines Sl1 = Some Sl'"
        by (auto split: option.splits)
      from sliceTarget_grows [OF 1] Cons.IH [OF 2] show ?thesis by (rule grows_trans)
    qed
  qed
qed

lemma sliceTargets_append:
  "sliceTargets fuel g modules (lines1 @ lines2) Sl =
     (case sliceTargets fuel g modules lines1 Sl of
        None \<Rightarrow> None
      | Some Sl1 \<Rightarrow> sliceTargets fuel g modules lines2 Sl1)"
  by (induction lines1 arbitrary: Sl) (auto split: option.splits)

subsection \<open>Batch mode\<close>

lemmas slicer_defs =
  exSlicing_def exFuel_def cacheAllLLVMObjects_def newSlicing_def insertAll_def clear_def
  intraCanReach_def intraCanReachStep_def addToVerbose_def backtrackingStep_def
  backtrackingLoop_def markVisited_def matchingCBS_def toProcess_def countSliced_def
  enqueueCallee_def enqueueCallees_def forwardStep_def forwardSlicingFunction_def
  getFunction_def forwardSlicingFunctionStub_def nameMatches_def findTargetByFunctionName_def
  sliceTarget_def parseTargetLine_def exBatch_def while_option_unfold

text \<open>
  C7 (counterexample). The batch of the two pairs \<open>target\<close> and \<open>vf\<close> on the example
  program ends with \<open>verboseBB_\<close> holding the blocks 30, 20, 10 and 50, collected
  for both pairs. Had the state been cleared between the pairs, the second pair
  alone would leave block 20 only.
\<close>

theorem C7_counterexample:
  "map_option verboseBB (sliceTargets exFuel exIR exModules exBatch exSlicing)
     = Some [30, 20, 10, 50] \<and>
   map_option verboseBB
     (Option.bind (sliceTargets exFuel exIR exModules [exBatch ! 0] exSlicing)
        (\<lambda>Sl. sliceTargets exFuel exIR exModules [exBatch ! 1] (clear Sl)))
     = Some [20]"
  by (simp add: slicer_defs ex_defs exContext_def)

text \<open>
  C7 (amended). In batch mode the state of the slicer is not cleared between target
  pairs: slicing the pairs of a batch is slicing its first part and then, from the
  state that this left, the rest; over a batch the five sets only grow and
  \<open>slicedFuncCnt_\<close> never decreases. \<open>Slicing::clear\<close> itself empties the five sets and
  sets \<open>slicedFuncCnt_\<close> to 1, but the batch loop does not call it.
\<close>

theorem C7_batch_state_accumulates:
  "sliceTargets fuel g modules (lines1 @ lines2) Sl =
     (case sliceTargets fuel g modules lines1 Sl of
        None \<Rightarrow> None
      | Some Sl1 \<Rightarrow> sliceTargets fuel g modules lines2 Sl1) \<and>
   (\<forall>Sl'. sliceTargets fuel g modules lines Sl = Some Sl' \<longrightarrow> grows Sl Sl') \<and>
   clear Sl = Sl\<lparr>visitedF := [], verboseF := [], visitedBB := [], fVisitedF := [],
                 verboseBB := [], slicedFuncCnt := 1\<rparr>"
  using sliceTargets_append [of fuel g modules lines1 lines2 Sl]
  by (auto simp: clear_def dest: sliceTargets_grows)

text \<open>The batch of two pairs on the example program.\<close>

theorem C7_batch_state_accumulates_witness:
  "\<exists>Sl'. sliceTargets exFuel exIR exModules exBatch exSlicing = Some Sl' \<and>
      grows exSlicing Sl' \<and> visitedF Sl' = [2, 1, 5] \<and> slicedFuncCnt Sl' = 4"
proof -
  have "map_option (\<lambda>Sl'. (visitedF Sl', slicedFuncCnt Sl'))
          (sliceTargets exFuel exIR exModules exBatch exSlicing) = Some ([2, 1, 5], 4)"
    by (simp add: slicer_defs ex_defs exContext_def)
  then obtain Sl' where
    s: "sliceTargets exFuel exIR exModules exBatch exSlicing = Some Sl'"
       "visitedF Sl' = [2, 1, 5]" "slicedFuncCnt Sl' = 4"
    by auto
  from C7_batch_state_accumulates [of exFuel exIR exModules "[]" "[]" exSlicing exBatch] s(1)
  have "grows exSlicing Sl'" by blast
  with s show ?thesis by blast
qed

subsection \<open>The files of a slice\<close>

lemma addToVerbose_frame:
  "addToVerbose g F s = Some s' \<Longrightarrow>
     fVisitedF s' = fVisitedF s \<and> verboseBB s' = verboseBB s"
  by (auto simp: addToVerbose_def Let_def split: if_splits option.splits)

lemma slice_frame:
  "(sliceFunction fuel g F s = Some s' \<longrightarrow>
      fVisitedF s' = fVisitedF s \<and> verboseBB s' = verboseBB s)"
  "(backtrackQueue fuel g BBs s = Some s' \<longrightarrow>
      fVisitedF s' = fVisitedF s \<and> verboseBB s' = verboseBB s)"
  "(backtracking fuel g BB s = Some s' \<longrightarrow>
      fVisitedF s' = fVisitedF s \<and> verboseBB s' = verboseBB s)"
proof (induction fuel g F s and fuel g BBs s and fuel g BB s
       arbitrary: s' and s' and s'
       rule: sliceFunction_backtrackQueue_backtracking.induct)
  case (1 g F s)
  show ?case by simp
next
  case (2 fuel g F s)
  show ?case
  proof
    assume a: "sliceFunction (Suc fuel) g F s = Some s'"
    show "fVisitedF s' = fVisitedF s \<and> verboseBB s' = verboseBB s"
    proof (cases "F \<in> set (visitedF s)")
      case True
      with a show ?thesis by simp
    next
      case False
      with a obtain s3 where s3: "addToVerbose g F (markVisited g F s) = Some s3"
        by (auto split: option.splits)
      from addToVerbose_frame [OF s3]
      have g3: "fVisitedF s3 = fVisitedF s \<and> verboseBB s3 = verboseBB s"
        by (simp add: markVisited_def)
      show ?thesis
      proof (cases "matchingCBS g F s3 = []")
        case True
        with a False s3 g3 show ?thesis by simp
      next
        case m: False
        with a False s3 obtain s4 where
          s4: "backtrackQueue fuel g (toProcess g F s3) s3 = Some s4" and
          e: "s' = countSliced (matchingCBS g F s3) s4"
          by (auto split: option.splits)
        from "2.IH" [OF False s3 m] s4
        have "fVisitedF s4 = fVisitedF s3 \<and> verboseBB s4 = verboseBB s3" by simp
        with g3 show ?thesis unfolding e by (simp add: countSliced_def)
      qed
    qed
  qed
next
  case (3 fuel g s)
  show ?case by simp
next
  case (4 fuel g BB BBs s)
  show ?case
  proof
    assume a: "backtrackQueue fuel g (BB # BBs) s = Some s'"
    then obtain s1 where s1: "backtracking fuel g BB s = Some s1"
      and r: "backtrackQueue fuel g BBs s1 = Some s'"
      by (auto split: option.splits)
    from "4.IH"(1) s1 have "fVisitedF s1 = fVisitedF s \<and> verboseBB s1 = verboseBB s" by simp
    moreover from "4.IH"(2) [OF s1] r
    have "fVisitedF s' = fVisitedF s1 \<and> verboseBB s' = verboseBB s1" by simp
    ultimately show "fVisitedF s' = fVisitedF s \<and> verboseBB s' = verboseBB s" by simp
  qed
next
  case (5 g BB s)
  show ?case by simp
next
  case (6 fuel g BB s)
  show ?case
  proof
    assume a: "backtracking (Suc fuel) g BB s = Some s'"
    then obtain vBB where v: "backtrackingLoop g (visitedBB s) BB = Some vBB"
      and r: "sliceFunction fuel g (bbParent (blockAt g BB)) (s\<lparr>visitedBB := vBB\<rparr>) = Some s'"
      by (auto split: option.splits)
    from "6.IH" [OF v] r show "fVisitedF s' = fVisitedF s \<and> verboseBB s' = verboseBB s"
      by simp
  qed
qed

lemma covered_frame:
  "fVisitedF s' = fVisitedF s \<and> verboseBB s' = verboseBB s \<Longrightarrow> covered g s \<Longrightarrow> covered g s'"
  by (simp add: covered_def)

lemma covered_new: "covered g (cacheAllLLVMObjects g modules (newSlicing Ctx))"
  by (simp add: covered_def cacheAllLLVMObjects_def newSlicing_def)

lemma forwardSlicingFunctionStub_covered:
  "forwardSlicingFunctionStub g modules name s = Some s' \<Longrightarrow> covered g s \<Longrightarrow> covered g s'"
  by (auto simp: forwardSlicingFunctionStub_def split: option.splits
      dest: forwardSlicingFunction_spec(4))

lemma sliceTarget_covered:
  assumes "sliceTarget fuel g modules targetFunc s = Some s'" and "covered g s"
  shows "covered g s'"
proof -
  from assms(1) obtain s1 s2 s3 s4 where
    1: "sliceFunction fuel g targetFunc s = Some s1" and
    2: "forwardSlicingFunction g targetFunc s1 = Some s2" and
    3: "forwardSlicingFunctionStub g modules ''LLVMFuzzerInitialize'' s2 = Some s3" and
    4: "forwardSlicingFunctionStub g modules ''LLVMFuzzerTestOneInput'' s3 = Some s4" and
    5: "forwardSlicingFunctionStub g modules ''LLVMFuzzerRunDriver'' s4 = Some s'"
    by (auto simp: sliceTarget_def split: option.splits)
  from slice_frame(1) [of fuel g targetFunc s s1] 1 assms(2) have "covered g s1"
    by (auto intro: covered_frame)
  then have "covered g s2" by (rule forwardSlicingFunction_spec(4) [OF 2])
  then have "covered g s3" by (rule forwardSlicingFunctionStub_covered [OF 3])
  then have "covered g s4" by (rule forwardSlicingFunctionStub_covered [OF 4])
  then show ?thesis by (rule forwardSlicingFunctionStub_covered [OF 5])
qed

lemma sliceTargets_covered:
  "sliceTargets fuel g modules lines Sl = Some Sl' \<Longrightarrow> covered g Sl \<Longrightarrow> covered g Sl'"
proof (induction lines arbitrary: Sl)
  case Nil
  then show ?case by simp
next
  case (Cons line lines)
  show ?case
  proof (cases "parseTargetLine line")
    case None
    with Cons show ?thesis by simp
  next
    case (Some p)
    obtain fileName funcName where p: "p = (fileName, funcName)" by (cases p)
    show ?thesis
    proof (cases "findTargetByFunctionName g modules fileName funcName")
      case None
      with Cons Some p show ?thesis by simp
    next
      case t: (Some targetFunc)
      with Cons.prems Some p obtain Sl1 where
        1: "sliceTarget fuel g modules targetFunc Sl = Some Sl1" and
        2: "sliceTargets fuel g modules lines Sl1 = Some Sl'"
        by (auto split: option.splits)
      from sliceTarget_covered [OF 1 Cons.prems(2)] have "covered g Sl1" .
      with Cons.IH [OF 2] show ?thesis .
    qed
  qed
qed

text \<open>The first loop of \<open>dump\<close>, over the functions of \<open>verboseF_\<close>.\<close>

lemma forwardSliceAll_spec:
  "forwardSliceAll g Fs s = Some s' \<Longrightarrow> covered g s \<Longrightarrow>
     slicerCtx s' = slicerCtx s \<and> visitedF s' = visitedF s \<and> verboseF s' = verboseF s \<and>
     visitedBB s' = visitedBB s \<and> fullFunc s' = fullFunc s \<and>
     set (verboseBB s) \<subseteq> set (verboseBB s') \<and> set (fVisitedF s) \<subseteq> set (fVisitedF s') \<and>
     covered g s' \<and>
     (\<forall>F \<in> set Fs. set (basicBlocks (functionAt g F)) \<subseteq> set (verboseBB s') \<and>
                    set (calleeList g (slicerCtx s) F) \<subseteq> set (fVisitedF s'))"
proof (induction Fs arbitrary: s)
  case Nil
  then show ?case by simp
next
  case (Cons F Fs)
  from Cons.prems(1) obtain s1 where
    1: "forwardSlicingFunction g F s = Some s1" and 2: "forwardSliceAll g Fs s1 = Some s'"
    by (auto split: option.splits)
  note a = forwardSlicingFunction_spec [OF 1]
  from a(4) Cons.prems(2) have c1: "covered g s1" by simp
  note b = Cons.IH [OF 2 c1]
  from a(1) have ctx: "slicerCtx s1 = slicerCtx s" by simp
  show ?case
  proof (intro conjI ballI)
    show "slicerCtx s' = slicerCtx s" "visitedF s' = visitedF s" "verboseF s' = verboseF s"
      "visitedBB s' = visitedBB s" "fullFunc s' = fullFunc s"
      using a(1) b by simp_all
    show "set (verboseBB s) \<subseteq> set (verboseBB s')" using a(2) b by blast
    show "set (fVisitedF s) \<subseteq> set (fVisitedF s')" using a(3) b by blast
    show "covered g s'" using b by simp
  next
    fix G assume G: "G \<in> set (F # Fs)"
    show "set (basicBlocks (functionAt g G)) \<subseteq> set (verboseBB s')"
    proof (cases "G = F")
      case True
      with a(5) b show ?thesis by blast
    next
      case False
      with G b show ?thesis by simp
    qed
    show "set (calleeList g (slicerCtx s) G) \<subseteq> set (fVisitedF s')"
    proof (cases "G = F")
      case True
      with a(6) b show ?thesis by blast
    next
      case False
      with G b ctx show ?thesis by simp
    qed
  qed
qed

lemma forwardDepth_partial:
  "0 \<le> depth \<Longrightarrow> forwardSlicingFunctionWithDepth fuel g Ctx F depth visited = Some v \<Longrightarrow>
     set v = set visited \<union> reachableWithin g Ctx F (nat depth)"
  "0 \<le> depth \<Longrightarrow> forwardCallees fuel g Ctx cs depth visited = Some v \<Longrightarrow>
     set v = set visited \<union> (\<Union>c \<in> set cs. reachableWithin g Ctx c (nat depth))"
proof (induction fuel g Ctx F depth visited and fuel g Ctx cs depth visited
       arbitrary: v and v rule: forwardSlicingFunctionWithDepth_forwardCallees.induct)
  case (1 g Ctx F depth visited)
  then show ?case by simp
next
  case (2 fuel g Ctx F depth visited)
  show ?case
  proof (cases "depth = 0")
    case True
    with "2.prems" show ?thesis by (auto simp: reachableWithin_0)
  next
    case False
    with "2.prems" have d: "0 \<le> depth - 1" and n: "nat depth = Suc (nat (depth - 1))"
      by simp_all
    from "2.prems" False have
      "forwardCallees fuel g Ctx (calleeList g Ctx F) (depth - 1) (List.insert F visited) = Some v"
      by (simp add: Let_def)
    from "2.IH" [OF refl False d this] show ?thesis
      unfolding n reachableWithin_Suc by auto
  qed
next
  case (3 fuel g Ctx depth visited)
  then show ?case by simp
next
  case (4 fuel g Ctx callee callees depth visited)
  from "4.prems" obtain v1 where
    1: "forwardSlicingFunctionWithDepth fuel g Ctx callee depth visited = Some v1" and
    2: "forwardCallees fuel g Ctx callees depth v1 = Some v"
    by (auto split: option.splits)
  from "4.IH"(1) [OF "4.prems"(1) 1] "4.IH"(2) [OF 1 "4.prems"(1) 2] show ?case by auto
qed

lemma reachableWithin_1:
  "reachableWithin g Ctx F (Suc 0) = insert F (set (calleeList g Ctx F))"
  by (auto simp: reachableWithin_Suc reachableWithin_0)

lemma foldl_dumpVisitedBlock:
  "foldl (dumpVisitedBlock g) (uo, uov, uof, uofv) BBs = (uo', uov', uof', uofv') \<Longrightarrow>
     set uo = set uov \<Longrightarrow>
     set uo' = set uov' \<and>
     set uof' = set uof \<union> (\<lambda>BB. nameLine g (bbParent (blockAt g BB))) ` set BBs \<and>
     set uofv' = set uofv \<union> (\<lambda>BB. nameLine g (bbParent (blockAt g BB))) ` set BBs"
proof (induction BBs arbitrary: uo uov uof uofv)
  case Nil
  then show ?case by simp
next
  case (Cons BB BBs)
  obtain a b c d where s: "dumpVisitedBlock g (uo, uov, uof, uofv) BB = (a, b, c, d)"
    by (cases "dumpVisitedBlock g (uo, uov, uof, uofv) BB") auto
  then have e: "set a = set b"
    "set c = insert (nameLine g (bbParent (blockAt g BB))) (set uof)"
    "set d = insert (nameLine g (bbParent (blockAt g BB))) (set uofv)"
    using Cons.prems(2)
    by (auto simp: dumpVisitedBlock_def Let_def split: option.splits)
  from Cons.prems(1) s have "foldl (dumpVisitedBlock g) (a, b, c, d) BBs = (uo', uov', uof', uofv')"
    by simp
  from Cons.IH [OF this e(1)] e(2,3) show ?case by auto
qed

lemma dump_spec:
  assumes d: "dump fuel g EC s = Some (s', Some files)" and pa: "parentsAgree g" and cov: "covered g s"
  shows "set (outputFile files) = set (outputFileVerbose files)"
    and "set (outputFileFunc files) \<subseteq>
           set (outputFileFuncVerbose files) \<union>
           {nameLine g F |F. basicBlocks (functionAt g F) = []}"
proof -
  from d obtain s1 v uo uov uof uofv where
    fsa: "forwardSliceAll g (verboseF s) s = Some s1" and
    fc: "forwardCallees fuel g (slicerCtx s1) (verboseF s1) 1 [] = Some v" and
    fl: "foldl (dumpVisitedBlock g)
           ([], [], insertAll (map (nameLine g) v) (insertAll (map (nameLine g) (verboseF s1)) []), [])
           (visitedBB s1) = (uo, uov, uof, uofv)" and
    f1: "outputFile files = uo" "outputFileVerbose files = uov" "outputFileFunc files = uof" and
    f2: "outputFileFuncVerbose files =
           insertAll (map (\<lambda>BB. nameLine g (bbParent (blockAt g BB))) (verboseBB s1)) uofv"
    by (auto simp: dump_def Let_def split: option.splits prod.splits if_splits)
  note a = forwardSliceAll_spec [OF fsa cov]
  from a have ctx: "slicerCtx s1 = slicerCtx s" and vF: "verboseF s1 = verboseF s"
    and c1: "covered g s1" by simp_all
  from forwardDepth_partial(2) [OF _ fc]
  have v: "set v = (\<Union>F \<in> set (verboseF s). insert F (set (calleeList g (slicerCtx s) F)))"
    by (simp add: reachableWithin_1 ctx vF)
  have blocks: "set (basicBlocks (functionAt g G)) \<subseteq> set (verboseBB s1)" if "G \<in> set v" for G
  proof -
    from that v obtain F where F: "F \<in> set (verboseF s)"
      and G: "G = F \<or> G \<in> set (calleeList g (slicerCtx s) F)" by auto
    from G show ?thesis
    proof
      assume "G = F"
      with a F show ?thesis by blast
    next
      assume "G \<in> set (calleeList g (slicerCtx s) F)"
      with a F have "G \<in> set (fVisitedF s1)" by blast
      with c1 show ?thesis by (auto simp: covered_def)
    qed
  qed
  note x = foldl_dumpVisitedBlock [OF fl]
  from x show "set (outputFile files) = set (outputFileVerbose files)" by (simp add: f1)
  have sub: "set (verboseF s) \<subseteq> set v" using v by auto
  show "set (outputFileFunc files) \<subseteq>
           set (outputFileFuncVerbose files) \<union>
           {nameLine g F |F. basicBlocks (functionAt g F) = []}"
  proof
    fix n assume "n \<in> set (outputFileFunc files)"
    with x f1 have "n \<in> nameLine g ` set v \<union> nameLine g ` set (verboseF s1) \<or>
       n \<in> (\<lambda>BB. nameLine g (bbParent (blockAt g BB))) ` set (visitedBB s1)"
      by auto
    then show "n \<in> set (outputFileFuncVerbose files) \<union>
           {nameLine g F |F. basicBlocks (functionAt g F) = []}"
    proof
      assume "n \<in> nameLine g ` set v \<union> nameLine g ` set (verboseF s1)"
      with sub vF obtain G where G: "G \<in> set v" "n = nameLine g G" by auto
      show ?thesis
      proof (cases "basicBlocks (functionAt g G)")
        case Nil
        with G show ?thesis by blast
      next
        case (Cons b bs)
        with blocks [OF G(1)] have b: "b \<in> set (verboseBB s1)" by simp
        from Cons pa have "bbParent (blockAt g b) = G" by (simp add: parentsAgree_def)
        with b G(2) have "n \<in> (\<lambda>BB. nameLine g (bbParent (blockAt g BB))) ` set (verboseBB s1)"
          by force
        then show ?thesis by (simp add: f2)
      qed
    next
      assume "n \<in> (\<lambda>BB. nameLine g (bbParent (blockAt g BB))) ` set (visitedBB s1)"
      with x show ?thesis by (simp add: f2)
    qed
  qed
qed

lemma dumpAndExit_spec:
  assumes "dumpAndExit fuel g EC (Some Sl) = Some (rc, Some files)"
    and "parentsAgree g" and "covered g Sl"
  shows "set (outputFile files) = set (outputFileVerbose files) \<and>
         set (outputFileFunc files) \<subseteq>
           set (outputFileFuncVerbose files) \<union>
           {nameLine g F |F. basicBlocks (functionAt g F) = []}"
proof -
  from assms(1) obtain Sl' where "dump fuel g EC Sl = Some (Sl', Some files)"
    by (auto simp: dumpAndExit_def split: option.splits)
  from dump_spec [OF this assms(2,3)] show ?thesis by simp
qed

lemma slicingPhase_spec:
  assumes r: "slicingPhase fuel g modules opts configLines EC Ctx = Some (rc, Some files)"
    and pa: "parentsAgree g"
  shows "set (outputFile files) = set (outputFileVerbose files) \<and>
         set (outputFileFunc files) \<subseteq>
           set (outputFileFuncVerbose files) \<union>
           {nameLine g F |F. basicBlocks (functionAt g F) = []}"
proof -
  let ?Sl = "cacheAllLLVMObjects g modules (newSlicing Ctx)"
  have c0: "covered g ?Sl" by (rule covered_new)
  from r have cg: "CallGraph opts" by (auto simp: slicingPhase_def Let_def split: if_splits)
  have none: "\<And>x. dumpAndExit fuel g EC None \<noteq> Some x" by (simp add: dumpAndExit_def)
  consider
    (batch) Sl where "sliceTargets fuel g modules configLines ?Sl = Some Sl"
      "dumpAndExit fuel g EC (Some Sl) = Some (rc, Some files)"
  | (line) BB Sl where "backtracking fuel g BB ?Sl = Some Sl"
      "dumpAndExit fuel g EC (Some Sl) = Some (rc, Some files)"
  | (func) F Sl where "sliceTarget fuel g modules F ?Sl = Some Sl"
      "dumpAndExit fuel g EC (Some Sl) = Some (rc, Some files)"
  proof (cases "MultiTargetPairsConfig opts \<noteq> []")
    case True
    with r cg have "dumpAndExit fuel g EC (sliceTargets fuel g modules configLines ?Sl)
                      = Some (rc, Some files)"
      by (simp add: slicingPhase_def Let_def)
    with none batch show ?thesis by (cases "sliceTargets fuel g modules configLines ?Sl") auto
  next
    case m: False
    show ?thesis
    proof (cases "TargetLine opts \<noteq> 0")
      case True
      with r cg m obtain BB where
        "dumpAndExit fuel g EC (backtracking fuel g BB ?Sl) = Some (rc, Some files)"
        by (auto simp: slicingPhase_def Let_def split: option.splits)
      with none line show ?thesis by (cases "backtracking fuel g BB ?Sl") auto
    next
      case l: False
      with r cg m obtain F where
        "dumpAndExit fuel g EC (sliceTarget fuel g modules F ?Sl) = Some (rc, Some files)"
        by (auto simp: slicingPhase_def Let_def split: option.splits if_splits)
      with none func show ?thesis by (cases "sliceTarget fuel g modules F ?Sl") auto
    qed
  qed
  then show ?thesis
  proof cases
    case batch
    from sliceTargets_covered [OF batch(1) c0] have "covered g Sl" .
    with batch(2) pa show ?thesis by (intro dumpAndExit_spec)
  next
    case line
    from slice_frame(3) [of fuel g BB ?Sl Sl] line(1) c0 have "covered g Sl"
      by (auto intro: covered_frame)
    with line(2) pa show ?thesis by (intro dumpAndExit_spec)
  next
    case func
    from sliceTarget_covered [OF func(1) c0] have "covered g Sl" .
    with func(2) pa show ?thesis by (intro dumpAndExit_spec)
  qed
qed

lemmas dump_defs =
  slicingPhase_def dumpAndExit_def dump_def dumpVisitedBlock_def nameLine_def exOpts_def
  exFiles_def calleeList_def callSitesOf_def normalizePath_defs

text \<open>
  C6 (counterexample). The slice of \<open>target\<close> in the example program: \<open>ext\<close>, a
  declaration called by \<open>main\<close> next to the call of \<open>target\<close>, is written to
  \<open>.func\<close> (it is in \<open>verboseF_\<close>) but not to \<open>.func.verbose\<close>, whose names are
  those of the functions of blocks and \<open>ext\<close> has no block.
\<close>

theorem C6_counterexample:
  "slicingPhase exFuel exIR exModules exOpts [] False exContext = Some (0, Some exFiles) \<and>
   ''ext\<newline>'' \<in> set (outputFileFunc exFiles) \<and>
   ''ext\<newline>'' \<notin> set (outputFileFuncVerbose exFiles)"
  by (simp add: dump_defs slicer_defs ex_defs exContext_def)

text \<open>When the files do not open, nothing is written and the exit code is still 0.\<close>

lemma files_not_opened:
  "slicingPhase exFuel exIR exModules exOpts [] True exContext = Some (0, None)"
  by (simp add: dump_defs slicer_defs ex_defs exContext_def)

lemma parentsAgree_exIR: "parentsAgree exIR"
  by (auto simp: parentsAgree_def ex_defs split: if_splits)

text \<open>
  The same files show that a function of \<open>.init.text\<close> reaches the slice output
  when it is called directly: \<open>setup\<close> is written to \<open>.func\<close> and \<open>.func.verbose\<close>.
\<close>

lemma init_text_function_in_slice_files:
  "slicingPhase exFuel exIR exModules exOpts [] False exContext = Some (0, Some exFiles) \<and>
   inInitText (functionAt exIR 3) \<and>
   nameLine exIR 3 \<in> set (outputFileFunc exFiles) \<and>
   nameLine exIR 3 \<in> set (outputFileFuncVerbose exFiles)"
  by (simp add: dump_defs slicer_defs ex_defs exContext_def)

text \<open>
  C6 (amended). For every target query that writes its files, on an IR whose blocks
  name their function as parent: \<open>.slice\<close> and \<open>.slice.verbose\<close> hold the same
  lines, and every name of \<open>.func\<close> is in \<open>.func.verbose\<close> unless it is the name of
  a function without basic blocks (a declaration).
\<close>

theorem C6_verbose_superset_up_to_declarations:
  assumes "slicingPhase fuel g modules opts configLines EC Ctx = Some (rc, Some files)"
    and "parentsAgree g"
  shows "set (outputFile files) = set (outputFileVerbose files) \<and>
         set (outputFileFunc files) \<subseteq>
           set (outputFileFuncVerbose files) \<union>
           {nameLine g F |F. basicBlocks (functionAt g F) = []}"
  using assms by (rule slicingPhase_spec)

text \<open>The slice of \<open>target\<close> in the example program.\<close>

theorem C6_verbose_superset_up_to_declarations_witness:
  "slicingPhase exFuel exIR exModules exOpts [] False exContext = Some (0, Some exFiles) \<and>
   parentsAgree exIR \<and>
   set (outputFile exFiles) = set (outputFileVerbose exFiles) \<and>
   set (outputFileFunc exFiles) \<subseteq>
     set (outputFileFuncVerbose exFiles) \<union>
     {nameLine exIR F |F. basicBlocks (functionAt exIR F) = []}"
proof -
  have r: "slicingPhase exFuel exIR exModules exOpts [] False exContext = Some (0, Some exFiles)"
    by (simp add: dump_defs slicer_defs ex_defs exContext_def)
  from C6_verbose_superset_up_to_declarations [OF r parentsAgree_exIR] r parentsAgree_exIR
  show ?thesis by (simp only: simp_thms)
qed

end
